theory Spec2Isabelle
  imports
    Main
    "HOL-Library.Word"
    "HOL-Library.List_Lexorder"
    "HOL-Library.Char_ord"
    "HOL-Library.Product_Lexorder"
begin

unbundle bit_operations_syntax

section \<open>Data model\<close>

text \<open>
  The persistent index layer of the node, \<^verbatim>\<open>txdb-leveldb.cpp\<close>. Hashes are 256-bit
  values, \<^verbatim>\<open>unsigned int\<close> is a 32-bit word, \<^verbatim>\<open>int\<close> heights are integers. A
  pointer to a block-index node is the address of the node in the heap (a natural
  number), \<^verbatim>\<open>NULL\<close> is \<open>None\<close>.
\<close>

text \<open>
  Modelled from the spec: the classes \<^verbatim>\<open>COutPoint\<close>, \<^verbatim>\<open>CDiskTxPos\<close>, \<^verbatim>\<open>CTxIndex\<close>,
  \<^verbatim>\<open>CBlockIndex\<close> and \<^verbatim>\<open>CDiskBlockIndex\<close> are declared in \<^verbatim>\<open>main.h\<close>, which is not
  among the sources. Section 3 lists the attributes of a block index node and of a
  transaction index record; the records below carry them under the names by which
  \<^verbatim>\<open>txdb-leveldb.cpp\<close> reads and writes them. The chain trust \<^verbatim>\<open>nChainTrust\<close> is the
  cumulative score of section 3, a number: it is modelled as an integer, and the sum
  that computes it is the sum of integers.
\<close>

type_synonym uint256 = "256 word"
type_synonym uint = "32 word"

text \<open>
  An \<^verbatim>\<open>int\<close> of the code is a 32-bit signed integer. The model holds such a value as
  an integer of that range; where the code converts a wider value to \<^verbatim>\<open>int\<close> or
  subtracts two of them, the result is the low 32 bits read as a signed number, as
  the compiled code has it.
\<close>

definition int32 :: "int \<Rightarrow> int" where
  "int32 x = sint (word_of_int x :: 32 word)"

datatype COutPoint = COutPoint (outpoint_hash: uint256) (outpoint_n: uint)

datatype CDiskTxPos = CDiskTxPos (txpos_nFile: uint) (txpos_nBlockPos: uint) (txpos_nTxPos: uint)

record CTxIndex =
  txindex_pos :: CDiskTxPos
  vSpent :: "CDiskTxPos list"

record CBlockIndex =
  phashBlock :: "uint256 option"
  pprev :: "nat option"
  pnext :: "nat option"
  nFile :: uint
  nBlockPos :: uint
  nChainTrust :: int
  nHeight :: int
  nMint :: int
  nMoneySupply :: int
  nFlags :: uint
  nStakeModifier :: "64 word"
  prevoutStake :: COutPoint
  nStakeTime :: uint
  hashProofOfStake :: uint256
  nVersion :: int
  hashMerkleRoot :: uint256
  nTime :: uint
  nBits :: uint
  nNonce :: uint

text \<open>\<^verbatim>\<open>class CDiskBlockIndex : public CBlockIndex\<close> adds the two neighbour hashes.\<close>

record CDiskBlockIndex = CBlockIndex +
  hashPrev :: uint256
  hashNext :: uint256

section \<open>Record store\<close>

text \<open>
  Modelled from the spec: the key-value engine and the serialization of keys and values
  are outside the sources. Sections 4.1 and 6: a key is a string tag, or a tag with a
  payload (here a hash); values are opaque serialized records; the engine iterates in
  key order, seeks to a starting key, and applies a batch of writes and erases in one
  step. The engine orders keys bytewise. A serialized tag starts with its length, so
  keys compare by the length of the tag, then by the tag, then by the payload; a key
  that is a tag alone comes before the same tag with a payload. The order among the
  payloads of one tag is a linear order in which the all-zero hash is least: the
  model takes the order of the hashes as numbers, and the results below use of it
  only that the all-zero hash comes first. A value is the typed record it
  deserializes to.
\<close>

type_synonym dbkey = "string \<times> uint256 option"

datatype dbvalue =
    VBlockIndex CDiskBlockIndex
  | VTxIndex CTxIndex
  | VHash uint256
  | VBigNum int
  | VString string
  | VInt int

type_synonym leveldb = "(dbkey \<times> dbvalue) list"

definition key_order :: "dbkey \<Rightarrow> nat \<times> string \<times> nat" where
  "key_order k =
     (length (fst k), fst k, (case snd k of None \<Rightarrow> 0 | Some h \<Rightarrow> Suc (unat h)))"

datatype batch_op = Put dbkey dbvalue | Delete dbkey

fun op_key :: "batch_op \<Rightarrow> dbkey" where
  "op_key (Put k v) = k"
| "op_key (Delete k) = k"

definition db_Get :: "leveldb \<Rightarrow> dbkey \<Rightarrow> dbvalue option" where
  "db_Get d k = map_of d k"

fun db_Put :: "dbkey \<Rightarrow> dbvalue \<Rightarrow> leveldb \<Rightarrow> leveldb" where
  "db_Put k v [] = [(k, v)]"
| "db_Put k v (e # d) = (if fst e = k then (k, v) # d else e # db_Put k v d)"

definition db_Delete :: "dbkey \<Rightarrow> leveldb \<Rightarrow> leveldb" where
  "db_Delete k d = filter (\<lambda>e. fst e \<noteq> k) d"

fun db_apply :: "batch_op \<Rightarrow> leveldb \<Rightarrow> leveldb" where
  "db_apply (Put k v) d = db_Put k v d"
| "db_apply (Delete k) d = db_Delete k d"

definition db_Write :: "batch_op list \<Rightarrow> leveldb \<Rightarrow> leveldb" where
  "db_Write batch d = fold db_apply batch d"

text \<open>An iterator lists the entries in key order; \<^verbatim>\<open>Seek\<close> moves to the first entry
  whose key is not below the given one.\<close>

definition NewIterator :: "leveldb \<Rightarrow> (dbkey \<times> dbvalue) list" where
  "NewIterator d = sort_key (\<lambda>e. key_order (fst e)) d"

definition Seek :: "dbkey \<Rightarrow> (dbkey \<times> dbvalue) list \<Rightarrow> (dbkey \<times> dbvalue) list" where
  "Seek k it = dropWhile (\<lambda>e. key_order (fst e) < key_order k) it"

record CTxDB =
  pdb :: leveldb
  activeBatch :: "batch_op list option"

text \<open>\<^verbatim>\<open>TxnBegin\<close> and \<^verbatim>\<open>TxnCommit\<close>; a failed \<^verbatim>\<open>assert\<close> is \<open>None\<close>. The status of
  the engine's batched write is the argument \<open>status_ok\<close>.\<close>

definition TxnBegin :: "CTxDB \<Rightarrow> (bool \<times> CTxDB) option" where
  "TxnBegin db =
     (case activeBatch db of
        Some b \<Rightarrow> None
      | None \<Rightarrow> Some (True, db\<lparr>activeBatch := Some []\<rparr>))"

definition TxnCommit :: "bool \<Rightarrow> CTxDB \<Rightarrow> (bool \<times> CTxDB) option" where
  "TxnCommit status_ok db =
     (case activeBatch db of
        None \<Rightarrow> None
      | Some b \<Rightarrow>
          Some (status_ok,
                \<lparr>pdb = (if status_ok then db_Write b (pdb db) else pdb db),
                 activeBatch = None\<rparr>))"

subsection \<open>Scanning the open batch\<close>

record CBatchScanner =
  needle :: dbkey
  deleted :: bool
  foundValue :: "dbvalue option"
  foundEntry :: bool

definition CBatchScanner_Put :: "dbkey \<Rightarrow> dbvalue \<Rightarrow> CBatchScanner \<Rightarrow> CBatchScanner" where
  "CBatchScanner_Put k v scanner =
     (if k = needle scanner
      then scanner\<lparr>foundEntry := True, deleted := False, foundValue := Some v\<rparr>
      else scanner)"

definition CBatchScanner_Delete :: "dbkey \<Rightarrow> CBatchScanner \<Rightarrow> CBatchScanner" where
  "CBatchScanner_Delete k scanner =
     (if k = needle scanner
      then scanner\<lparr>foundEntry := True, deleted := True\<rparr>
      else scanner)"

fun Iterate_step :: "batch_op \<Rightarrow> CBatchScanner \<Rightarrow> CBatchScanner" where
  "Iterate_step (Put k v) scanner = CBatchScanner_Put k v scanner"
| "Iterate_step (Delete k) scanner = CBatchScanner_Delete k scanner"

text \<open>\<^verbatim>\<open>ScanBatch(key, value, deleted)\<close>: the result is the returned flag with the
  contents of \<^verbatim>\<open>*value\<close> and \<^verbatim>\<open>*deleted\<close>; \<open>value0\<close> is what \<^verbatim>\<open>*value\<close> held at the call.
  \<open>None\<close> is the failed \<^verbatim>\<open>assert(activeBatch)\<close>.\<close>

definition ScanBatch ::
  "CTxDB \<Rightarrow> dbkey \<Rightarrow> dbvalue option \<Rightarrow> (bool \<times> dbvalue option \<times> bool) option" where
  "ScanBatch db k value0 =
     (case activeBatch db of
        None \<Rightarrow> None
      | Some batch \<Rightarrow>
          let scanner =
                fold Iterate_step batch
                  \<lparr>needle = k, deleted = False, foundValue = value0, foundEntry = False\<rparr>
          in Some (foundEntry scanner, foundValue scanner, deleted scanner))"

text \<open>
  Modelled from the spec: the typed \<^verbatim>\<open>Read\<close>, \<^verbatim>\<open>Write\<close>, \<^verbatim>\<open>Erase\<close> and \<^verbatim>\<open>Exists\<close> of
  the store handle are templates of \<^verbatim>\<open>txdb-leveldb.h\<close>, which is not among the sources.
  Section 4.1: writes and erases issued while a batch is open are buffered and not
  applied to the store; a read issued while a batch is open checks the buffered batch
  first (the most recent write or erase of the key wins) and falls through to the
  store otherwise.
\<close>

definition Read :: "CTxDB \<Rightarrow> dbkey \<Rightarrow> dbvalue option" where
  "Read db k =
     (case ScanBatch db k None of
        Some (True, v, del) \<Rightarrow> (if del then None else v)
      | _ \<Rightarrow> db_Get (pdb db) k)"

definition Exists :: "CTxDB \<Rightarrow> dbkey \<Rightarrow> bool" where
  "Exists db k =
     (case ScanBatch db k None of
        Some (True, v, del) \<Rightarrow> \<not> del
      | _ \<Rightarrow> db_Get (pdb db) k \<noteq> None)"

definition Write :: "CTxDB \<Rightarrow> dbkey \<Rightarrow> dbvalue \<Rightarrow> bool \<times> CTxDB" where
  "Write db k v =
     (case activeBatch db of
        Some batch \<Rightarrow> (True, db\<lparr>activeBatch := Some (batch @ [Put k v])\<rparr>)
      | None \<Rightarrow> (True, db\<lparr>pdb := db_Put k v (pdb db)\<rparr>))"

definition Erase :: "CTxDB \<Rightarrow> dbkey \<Rightarrow> bool \<times> CTxDB" where
  "Erase db k =
     (case activeBatch db of
        Some batch \<Rightarrow> (True, db\<lparr>activeBatch := Some (batch @ [Delete k])\<rparr>)
      | None \<Rightarrow> (True, db\<lparr>pdb := db_Delete k (pdb db)\<rparr>))"

subsection \<open>Typed accessors\<close>

definition ReadTxIndex :: "CTxDB \<Rightarrow> uint256 \<Rightarrow> CTxIndex option" where
  "ReadTxIndex db h =
     (case Read db (''tx'', Some h) of Some (VTxIndex txindex) \<Rightarrow> Some txindex | _ \<Rightarrow> None)"

definition UpdateTxIndex :: "CTxDB \<Rightarrow> uint256 \<Rightarrow> CTxIndex \<Rightarrow> bool \<times> CTxDB" where
  "UpdateTxIndex db h txindex = Write db (''tx'', Some h) (VTxIndex txindex)"

definition ContainsTx :: "CTxDB \<Rightarrow> uint256 \<Rightarrow> bool" where
  "ContainsTx db h = Exists db (''tx'', Some h)"

definition ReadHashBestChain :: "CTxDB \<Rightarrow> uint256 option" where
  "ReadHashBestChain db =
     (case Read db (''hashBestChain'', None) of Some (VHash h) \<Rightarrow> Some h | _ \<Rightarrow> None)"

definition WriteHashBestChain :: "CTxDB \<Rightarrow> uint256 \<Rightarrow> bool \<times> CTxDB" where
  "WriteHashBestChain db h = Write db (''hashBestChain'', None) (VHash h)"

definition ReadBestInvalidTrust :: "CTxDB \<Rightarrow> int option" where
  "ReadBestInvalidTrust db =
     (case Read db (''bnBestInvalidTrust'', None) of Some (VBigNum b) \<Rightarrow> Some b | _ \<Rightarrow> None)"

definition ReadSyncCheckpoint :: "CTxDB \<Rightarrow> uint256 option" where
  "ReadSyncCheckpoint db =
     (case Read db (''hashSyncCheckpoint'', None) of Some (VHash h) \<Rightarrow> Some h | _ \<Rightarrow> None)"

definition WriteSyncCheckpoint :: "CTxDB \<Rightarrow> uint256 \<Rightarrow> bool \<times> CTxDB" where
  "WriteSyncCheckpoint db h = Write db (''hashSyncCheckpoint'', None) (VHash h)"

section \<open>Environment\<close>

text \<open>
  Modelled from the spec: \<^verbatim>\<open>CTxIn\<close>, \<^verbatim>\<open>CTransaction\<close> and \<^verbatim>\<open>CBlock\<close> are declared in
  \<^verbatim>\<open>main.h\<close>, and blocks and transactions are read from the block files by code
  outside the sources (section 6, block body access). A transaction carries its inputs
  and the rest of its content, a block its transactions.
\<close>

record CTxIn =
  prevout :: COutPoint

record CTransaction =
  vin :: "CTxIn list"
  tx_content :: nat

record CBlock =
  vtx :: "CTransaction list"
  block_content :: nat

text \<open>
  What \<^verbatim>\<open>LoadBlockIndex\<close> takes from the rest of the node: the shutdown flag, the
  checkpoint table \<^verbatim>\<open>mapCheckpoints\<close> (a \<^verbatim>\<open>std::map\<close> from \<^verbatim>\<open>int\<close> to hashes, iterated in
  ascending key order), the hash functions of a disk record, the trust and
  proof-of-stake test of a node, the genesis hash selected by \<^verbatim>\<open>fTestNet\<close>, the two
  command-line arguments, reading and checking of blocks and transactions, the test
  \<^verbatim>\<open>IsNull\<close> of a disk position (a null spent marker is an unspent output), and
  \<^verbatim>\<open>Checkpoints::WriteSyncCheckpoint\<close>, which writes through the shared engine.
\<close>

record env =
  fRequestShutdown :: bool
  mapCheckpoints :: "(int \<times> uint256) list"
  GetBlockHash :: "CDiskBlockIndex \<Rightarrow> uint256"
  GetBlockHashScrypt :: "CDiskBlockIndex \<Rightarrow> uint256"
  GetBlockTrust :: "CBlockIndex \<Rightarrow> int"
  IsProofOfStake :: "CBlockIndex \<Rightarrow> bool"
  hashGenesisBlock :: uint256
  arg_checklevel :: int
  arg_checkblocks :: int
  block_ReadFromDisk :: "CBlockIndex \<Rightarrow> CBlock option"
  CheckBlock :: "CBlock \<Rightarrow> bool \<Rightarrow> bool"
  tx_GetHash :: "CTransaction \<Rightarrow> uint256"
  tx_ReadFromDisk :: "CDiskTxPos \<Rightarrow> CTransaction option"
  CheckTransaction :: "CTransaction \<Rightarrow> bool"
  IsNull :: "CDiskTxPos \<Rightarrow> bool"
  Checkpoints_WriteSyncCheckpoint :: "uint256 \<Rightarrow> leveldb \<Rightarrow> bool \<times> leveldb"

datatype error =
    LoadError string
  | NullPointer
  | DeserializeError
  | OutOfRange


section \<open>Block index graph\<close>

text \<open>
  The global state \<^verbatim>\<open>LoadBlockIndex\<close> works on. \<^verbatim>\<open>mapBlockIndex\<close> maps a hash to the
  address of its node and is kept in ascending order of the hash, as the \<^verbatim>\<open>std::map\<close>
  is; \<open>heap\<close> holds the nodes, the address of a node being its position, and \<^verbatim>\<open>new\<close>
  takes the next position.
\<close>

record globals =
  mapBlockIndex :: "(uint256 \<times> nat) list"
  heap :: "CBlockIndex list"
  pindexGenesisBlock :: "nat option"
  setStakeSeen :: "(COutPoint \<times> uint) set"
  hashBestChain :: uint256
  pindexBest :: "nat option"
  nBestHeight :: int
  nBestChainTrust :: int
  nBestInvalidTrust :: int
  hashSyncCheckpoint :: uint256

text \<open>Modelled from the spec: the constructor of \<^verbatim>\<open>CBlockIndex\<close> is declared in
  \<^verbatim>\<open>main.h\<close>. Section 3: a node may be created as a placeholder with only its hash
  known, its fields at their default values; the node \<^verbatim>\<open>new CBlockIndex()\<close> constructs
  has null pointers and zero members.\<close>

definition new_CBlockIndex :: CBlockIndex where
  "new_CBlockIndex =
     \<lparr>phashBlock = None, pprev = None, pnext = None, nFile = 0, nBlockPos = 0,
      nChainTrust = 0, nHeight = 0, nMint = 0, nMoneySupply = 0, nFlags = 0,
      nStakeModifier = 0, prevoutStake = COutPoint 0 (- 1), nStakeTime = 0,
      hashProofOfStake = 0, nVersion = 0, hashMerkleRoot = 0, nTime = 0, nBits = 0,
      nNonce = 0\<rparr>"

definition InsertBlockIndex :: "uint256 \<Rightarrow> globals \<Rightarrow> nat option \<times> globals" where
  "InsertBlockIndex hash g =
     (if hash = 0 then (None, g)
      else
        (case map_of (mapBlockIndex g) hash of
           Some mi \<Rightarrow> (Some mi, g)
         | None \<Rightarrow>
             let pindexNew = length (heap g)
             in (Some pindexNew,
                 g\<lparr>heap := heap g @ [new_CBlockIndex\<lparr>phashBlock := Some hash\<rparr>],
                   mapBlockIndex := insort_key fst (hash, pindexNew) (mapBlockIndex g)\<rparr>)))"

section \<open>LoadBlockIndex\<close>

subsection \<open>Count pass\<close>

text \<open>The first loop: the counter is stepped first, then the tag of the key is read.\<close>

fun count_pass :: "bool \<Rightarrow> (dbkey \<times> dbvalue) list \<Rightarrow> uint \<Rightarrow> uint" where
  "count_pass shutdown [] TotalNumBlocks = TotalNumBlocks"
| "count_pass shutdown (entry # it) TotalNumBlocks =
     (if shutdown \<or> fst (fst entry) \<noteq> ''blockindex''
      then TotalNumBlocks + 1
      else count_pass shutdown it (TotalNumBlocks + 1))"

definition blockindex_start :: "leveldb \<Rightarrow> (dbkey \<times> dbvalue) list" where
  \<comment> \<open>a new iterator, moved to the key \<^verbatim>\<open>("blockindex", uint256(0))\<close>\<close>
  "blockindex_start d = Seek (''blockindex'', Some 0) (NewIterator d)"

definition count_blocks :: "env \<Rightarrow> CTxDB \<Rightarrow> uint" where
  "count_blocks e db = count_pass (fRequestShutdown e) (blockindex_start (pdb db)) 0"

subsection \<open>Checkpoint selection\<close>

text \<open>
  One turn of the loop over \<^verbatim>\<open>mapCheckpoints\<close>. \<^verbatim>\<open>TotalNumBlocks\<close>,
  \<^verbatim>\<open>currentBest\<close> and \<^verbatim>\<open>bestCheckpoint\<close> are \<^verbatim>\<open>unsigned int\<close>; the key is an \<^verbatim>\<open>int\<close>
  and is converted.
\<close>

definition checkpoint_step :: "uint \<times> uint \<Rightarrow> int \<Rightarrow> uint \<times> uint" where
  "checkpoint_step st key =
     (case st of (TotalNumBlocks, bestCheckpoint) \<Rightarrow>
        let currentBest = (word_of_int key :: uint);
            TotalNumBlocks = (if TotalNumBlocks - 250 < 0 then 0 else TotalNumBlocks);
            bestCheckpoint = (if currentBest < TotalNumBlocks then currentBest else bestCheckpoint)
        in (TotalNumBlocks, bestCheckpoint))"

definition select_checkpoint :: "(int \<times> uint256) list \<Rightarrow> uint \<Rightarrow> uint \<times> uint" where
  "select_checkpoint checkpoints TotalNumBlocks =
     foldl checkpoint_step (TotalNumBlocks, 0) (sort (map fst checkpoints))"

definition bestCheckpoint_of :: "(int \<times> uint256) list \<Rightarrow> uint \<Rightarrow> uint" where
  "bestCheckpoint_of checkpoints TotalNumBlocks = snd (select_checkpoint checkpoints TotalNumBlocks)"

subsection \<open>Load pass\<close>

fun read_records ::
  "bool \<Rightarrow> (dbkey \<times> dbvalue) list \<Rightarrow> CDiskBlockIndex list \<Rightarrow> error + CDiskBlockIndex list" where
  "read_records shutdown [] vDiskBlockIndex = Inr vDiskBlockIndex"
| "read_records shutdown (entry # it) vDiskBlockIndex =
     (if shutdown \<or> fst (fst entry) \<noteq> ''blockindex'' then Inr vDiskBlockIndex
      else
        (case snd entry of
           VBlockIndex diskindex \<Rightarrow> read_records shutdown it (vDiskBlockIndex @ [diskindex])
         | _ \<Rightarrow> Inl DeserializeError))"

definition node_update :: "nat \<Rightarrow> (CBlockIndex \<Rightarrow> CBlockIndex) \<Rightarrow> globals \<Rightarrow> globals" where
  \<comment> \<open>an assignment through the pointer\<close>
  "node_update p f g = g\<lparr>heap := (heap g)[p := f (heap g ! p)]\<rparr>"

definition copy_fields :: "CDiskBlockIndex \<Rightarrow> CBlockIndex \<Rightarrow> CBlockIndex" where
  "copy_fields diskindex node =
     node\<lparr>nFile := nFile diskindex,
          nBlockPos := nBlockPos diskindex,
          nHeight := nHeight diskindex,
          nMint := nMint diskindex,
          nMoneySupply := nMoneySupply diskindex,
          nFlags := nFlags diskindex,
          nStakeModifier := nStakeModifier diskindex,
          prevoutStake := prevoutStake diskindex,
          nStakeTime := nStakeTime diskindex,
          hashProofOfStake := hashProofOfStake diskindex,
          nVersion := nVersion diskindex,
          hashMerkleRoot := hashMerkleRoot diskindex,
          nTime := nTime diskindex,
          nBits := nBits diskindex,
          nNonce := nNonce diskindex\<rparr>"

text \<open>One turn of the second loop. \<^verbatim>\<open>InsertBlockIndex\<close> returns \<^verbatim>\<open>NULL\<close> for the zero
  hash, and the assignment to \<^verbatim>\<open>pindexNew->pprev\<close> then goes through a null pointer.\<close>

definition load_diskindex :: "env \<Rightarrow> CDiskBlockIndex \<Rightarrow> globals \<Rightarrow> error + globals" where
  "load_diskindex e diskindex g =
     (let blockHash = GetBlockHash e diskindex in
      case InsertBlockIndex blockHash g of
        (None, g1) \<Rightarrow> Inl NullPointer
      | (Some pindexNew, g1) \<Rightarrow>
          (case InsertBlockIndex (hashPrev diskindex) g1 of (prev, g2) \<Rightarrow>
           let g3 = node_update pindexNew (\<lambda>node. node\<lparr>pprev := prev\<rparr>) g2 in
           case InsertBlockIndex (hashNext diskindex) g3 of (next, g4) \<Rightarrow>
           let g5 = node_update pindexNew (\<lambda>node. node\<lparr>pnext := next\<rparr>) g4;
               g6 = node_update pindexNew (copy_fields diskindex) g5;
               g7 = (if pindexGenesisBlock g6 = None \<and> blockHash = hashGenesisBlock e
                     then g6\<lparr>pindexGenesisBlock := Some pindexNew\<rparr> else g6);
               node = heap g7 ! pindexNew;
               g8 = (if IsProofOfStake e node
                     then g7\<lparr>setStakeSeen :=
                             insert (prevoutStake node, nStakeTime node) (setStakeSeen g7)\<rparr>
                     else g7)
           in Inr g8))"

fun load_records :: "env \<Rightarrow> CDiskBlockIndex list \<Rightarrow> globals \<Rightarrow> error + globals" where
  "load_records e [] g = Inr g"
| "load_records e (diskindex # rest) g =
     (case load_diskindex e diskindex g of
        Inl err \<Rightarrow> Inl err
      | Inr g' \<Rightarrow> load_records e rest g')"

definition load_pass :: "env \<Rightarrow> CTxDB \<Rightarrow> globals \<Rightarrow> error + globals" where
  "load_pass e db g =
     (case read_records (fRequestShutdown e) (blockindex_start (pdb db)) [] of
        Inl err \<Rightarrow> Inl err
      | Inr vDiskBlockIndex \<Rightarrow> load_records e vDiskBlockIndex g)"

subsection \<open>Chain trust\<close>

definition vSortedByHeight :: "globals \<Rightarrow> (int \<times> nat) list" where
  "vSortedByHeight g =
     sort (map (\<lambda>item. (nHeight (heap g ! snd item), snd item)) (mapBlockIndex g))"

fun calc_trust :: "env \<Rightarrow> (int \<times> nat) list \<Rightarrow> CBlockIndex list \<Rightarrow> CBlockIndex list" where
  "calc_trust e [] h = h"
| "calc_trust e (item # rest) h =
     calc_trust e rest
       (h[snd item :=
            (h ! snd item)\<lparr>nChainTrust :=
               (case pprev (h ! snd item) of Some q \<Rightarrow> nChainTrust (h ! q) | None \<Rightarrow> 0)
               + GetBlockTrust e (h ! snd item)\<rparr>])"

definition trust_pass :: "env \<Rightarrow> globals \<Rightarrow> globals" where
  "trust_pass e g = g\<lparr>heap := calc_trust e (vSortedByHeight g) (heap g)\<rparr>"

subsection \<open>Best chain pointer and sync checkpoint\<close>

text \<open>A stage either goes on to the next one or ends the load with \<^verbatim>\<open>return true\<close>.\<close>

datatype 'a stage = Continue 'a | Return 'a

definition load_best_chain :: "CTxDB \<Rightarrow> globals \<Rightarrow> error + globals stage" where
  "load_best_chain db g =
     (case ReadHashBestChain db of
        None \<Rightarrow>
          (if pindexGenesisBlock g = None then Inr (Return g)
           else Inl (LoadError ''CTxDB::LoadBlockIndex() : hashBestChain not loaded''))
      | Some h \<Rightarrow>
          (case map_of (mapBlockIndex g) h of
             None \<Rightarrow>
               Inl (LoadError
                 ''CTxDB::LoadBlockIndex() : hashBestChain not found in the block index'')
           | Some p \<Rightarrow>
               Inr (Continue
                 (g\<lparr>hashBestChain := h,
                    pindexBest := Some p,
                    nBestHeight := nHeight (heap g ! p),
                    nBestChainTrust := nChainTrust (heap g ! p)\<rparr>))))"

text \<open>\<^verbatim>\<open>mapCheckpoints.find(bestCheckpoint)->second\<close> reads through the iterator the
  lookup returns; a height that is no key of the table gives the end iterator.\<close>

definition init_sync_checkpoint ::
  "env \<Rightarrow> uint \<Rightarrow> CTxDB \<Rightarrow> globals \<Rightarrow> error + CTxDB \<times> globals" where
  "init_sync_checkpoint e bestCheckpoint db g =
     (case (if bestCheckpoint \<noteq> 0 then map_of (mapCheckpoints e) (sint bestCheckpoint)
            else Some (hashGenesisBlock e)) of
        None \<Rightarrow> Inl NullPointer
      | Some CheckpointBlock \<Rightarrow>
          (case Checkpoints_WriteSyncCheckpoint e CheckpointBlock (pdb db) of (ok, d) \<Rightarrow>
             if \<not> ok then Inl (LoadError ''LoadBlockIndex() : failed to init sync checkpoint'')
             else
               (case ReadSyncCheckpoint (db\<lparr>pdb := d\<rparr>) of
                  None \<Rightarrow>
                    Inl (LoadError ''CTxDB::LoadBlockIndex() : hashSyncCheckpoint not loaded'')
                | Some h \<Rightarrow> Inr (db\<lparr>pdb := d\<rparr>, g\<lparr>hashSyncCheckpoint := h\<rparr>))))"

definition load_best_invalid_trust :: "CTxDB \<Rightarrow> globals \<Rightarrow> globals" where
  "load_best_invalid_trust db g =
     g\<lparr>nBestInvalidTrust := (case ReadBestInvalidTrust db of Some b \<Rightarrow> b | None \<Rightarrow> 0)\<rparr>"

subsection \<open>Verification of the best chain\<close>

text \<open>
  The walk keeps the repair point \<^verbatim>\<open>pindexFork\<close> and the map \<^verbatim>\<open>mapBlockPos\<close> of the
  positions of the blocks visited so far. In the checks of one block, \<open>back\<close> is
  \<^verbatim>\<open>pindex->pprev\<close>, the value every failed check assigns to \<^verbatim>\<open>pindexFork\<close>.
\<close>

type_synonym blockpos_map = "uint \<times> uint \<rightharpoonup> nat"

text \<open>Check level 6, for one spent marker: the spending transaction is read, checked,
  and searched for an input that spends output \<open>nOutput\<close> of \<open>hashTx\<close>.\<close>

definition check_spending_tx ::
  "env \<Rightarrow> uint256 \<Rightarrow> uint \<Rightarrow> CDiskTxPos \<Rightarrow> nat option \<Rightarrow> nat option \<Rightarrow> nat option" where
  "check_spending_tx e hashTx nOutput txpos back pindexFork =
     (case tx_ReadFromDisk e txpos of
        None \<Rightarrow> back
      | Some txSpend \<Rightarrow>
          if \<not> CheckTransaction e txSpend then back
          else
            let fFound =
                  list_ex (\<lambda>txin. outpoint_hash (prevout txin) = hashTx \<and>
                                   outpoint_n (prevout txin) = nOutput) (vin txSpend)
            in if \<not> fFound then back else pindexFork)"

text \<open>Check level 4, the loop over \<^verbatim>\<open>txindex.vSpent\<close> with its counter \<^verbatim>\<open>nOutput\<close>.\<close>

fun check_vSpent ::
  "env \<Rightarrow> int \<Rightarrow> blockpos_map \<Rightarrow> uint256 \<Rightarrow> nat option \<Rightarrow> CDiskTxPos list \<Rightarrow> uint \<Rightarrow>
   nat option \<Rightarrow> nat option" where
  "check_vSpent e nCheckLevel mapBlockPos hashTx back [] nOutput pindexFork = pindexFork"
| "check_vSpent e nCheckLevel mapBlockPos hashTx back (txpos # rest) nOutput pindexFork =
     check_vSpent e nCheckLevel mapBlockPos hashTx back rest (nOutput + 1)
       (if \<not> IsNull e txpos then
          (let posFind = (txpos_nFile txpos, txpos_nBlockPos txpos);
               fork1 = (if mapBlockPos posFind = None then back else pindexFork)
           in if nCheckLevel > 5 then check_spending_tx e hashTx nOutput txpos back fork1
              else fork1)
        else pindexFork)"

text \<open>Check level 5, the loop over the inputs. \<^verbatim>\<open>vSpent.size()-1\<close> is unsigned: for an
  empty \<^verbatim>\<open>vSpent\<close> the comparison is false and the element read is out of range.\<close>

fun check_prevouts ::
  "env \<Rightarrow> CTxDB \<Rightarrow> nat option \<Rightarrow> CTxIn list \<Rightarrow> nat option \<Rightarrow> error + nat option" where
  "check_prevouts e db back [] pindexFork = Inr pindexFork"
| "check_prevouts e db back (txin # rest) pindexFork =
     (case ReadTxIndex db (outpoint_hash (prevout txin)) of
        None \<Rightarrow> check_prevouts e db back rest pindexFork
      | Some txindex \<Rightarrow>
          if vSpent txindex = [] then Inl OutOfRange
          else if length (vSpent txindex) - 1 < unat (outpoint_n (prevout txin))
                  \<or> IsNull e (vSpent txindex ! unat (outpoint_n (prevout txin)))
          then check_prevouts e db back rest back
          else check_prevouts e db back rest pindexFork)"

text \<open>The body of the loop over \<^verbatim>\<open>block.vtx\<close>, for one transaction.\<close>

definition check_tx ::
  "env \<Rightarrow> CTxDB \<Rightarrow> int \<Rightarrow> CBlockIndex \<Rightarrow> blockpos_map \<Rightarrow> CTransaction \<Rightarrow> nat option \<Rightarrow>
   error + nat option" where
  "check_tx e db nCheckLevel pindex mapBlockPos tx pindexFork =
     (let hashTx = tx_GetHash e tx;
          back = pprev pindex;
          fork2 =
            (case ReadTxIndex db hashTx of
               Some txindex \<Rightarrow>
                 let fork1 =
                       (if nCheckLevel > 2
                           \<or> nFile pindex \<noteq> txpos_nFile (txindex_pos txindex)
                           \<or> nBlockPos pindex \<noteq> txpos_nBlockPos (txindex_pos txindex)
                        then
                          (case tx_ReadFromDisk e (txindex_pos txindex) of
                             None \<Rightarrow> back
                           | Some txFound \<Rightarrow>
                               if tx_GetHash e txFound \<noteq> hashTx then back else pindexFork)
                        else pindexFork)
                 in if nCheckLevel > 3
                    then check_vSpent e nCheckLevel mapBlockPos hashTx back (vSpent txindex) 0 fork1
                    else fork1
             | None \<Rightarrow> pindexFork)
      in if nCheckLevel > 4 then check_prevouts e db back (vin tx) fork2 else Inr fork2)"

fun check_vtx ::
  "env \<Rightarrow> CTxDB \<Rightarrow> int \<Rightarrow> CBlockIndex \<Rightarrow> blockpos_map \<Rightarrow> CTransaction list \<Rightarrow> nat option \<Rightarrow>
   error + nat option" where
  "check_vtx e db nCheckLevel pindex mapBlockPos [] pindexFork = Inr pindexFork"
| "check_vtx e db nCheckLevel pindex mapBlockPos (tx # rest) pindexFork =
     (case check_tx e db nCheckLevel pindex mapBlockPos tx pindexFork of
        Inl err \<Rightarrow> Inl err
      | Inr fork \<Rightarrow> check_vtx e db nCheckLevel pindex mapBlockPos rest fork)"

text \<open>The checks of one visited block, whose node is at address \<open>p\<close>.\<close>

definition verify_block ::
  "env \<Rightarrow> CTxDB \<Rightarrow> int \<Rightarrow> globals \<Rightarrow> nat \<Rightarrow> CBlock \<Rightarrow> nat option \<times> blockpos_map \<Rightarrow>
   error + nat option \<times> blockpos_map" where
  "verify_block e db nCheckLevel g p block st =
     (case st of (pindexFork, mapBlockPos) \<Rightarrow>
        let pindex = heap g ! p;
            fork1 = (if nCheckLevel > 0 \<and> \<not> CheckBlock e block (nCheckLevel > 6)
                     then pprev pindex else pindexFork)
        in if nCheckLevel > 1 then
             (let mapBlockPos1 = mapBlockPos((nFile pindex, nBlockPos pindex) \<mapsto> p)
              in case check_vtx e db nCheckLevel pindex mapBlockPos1 (vtx block) fork1 of
                   Inl err \<Rightarrow> Inl err
                 | Inr fork \<Rightarrow> Inr (fork, mapBlockPos1))
           else Inr (fork1, mapBlockPos))"

text \<open>
  The loop \<^verbatim>\<open>for (pindex = pindexBest; pindex && pindex->pprev; pindex = pindex->pprev)\<close>.
  It follows the \<^verbatim>\<open>pprev\<close> pointers and need not end when they form a cycle; the
  first argument bounds the number of turns, and \<open>None\<close> says that the bound was
  reached. The difference \<^verbatim>\<open>nBestHeight-nCheckDepth\<close> is a difference of two \<^verbatim>\<open>int\<close>.
\<close>

fun verify_walk ::
  "nat \<Rightarrow> env \<Rightarrow> CTxDB \<Rightarrow> int \<Rightarrow> int \<Rightarrow> globals \<Rightarrow> nat option \<Rightarrow> nat option \<times> blockpos_map \<Rightarrow>
   (error + nat option \<times> blockpos_map) option" where
  "verify_walk 0 e db nCheckLevel nCheckDepth g pindex st = None"
| "verify_walk (Suc fuel) e db nCheckLevel nCheckDepth g pindex st =
     (case pindex of
        None \<Rightarrow> Some (Inr st)
      | Some p \<Rightarrow>
          (case pprev (heap g ! p) of
             None \<Rightarrow> Some (Inr st)
           | Some q \<Rightarrow>
               if fRequestShutdown e
                  \<or> nHeight (heap g ! p) < int32 (nBestHeight g - nCheckDepth)
               then Some (Inr st)
               else
                 (case block_ReadFromDisk e (heap g ! p) of
                    None \<Rightarrow> Some (Inl (LoadError ''LoadBlockIndex() : block.ReadFromDisk failed''))
                  | Some block \<Rightarrow>
                      (case verify_block e db nCheckLevel g p block st of
                         Inl err \<Rightarrow> Some (Inl err)
                       | Inr st' \<Rightarrow>
                           verify_walk fuel e db nCheckLevel nCheckDepth g (Some q) st'))))"

text \<open>\<^verbatim>\<open>GetArg\<close> belongs to the rest of the node; the value it gives is assigned to
  an \<^verbatim>\<open>int\<close>.\<close>

definition check_depth :: "env \<Rightarrow> globals \<Rightarrow> int" where
  "check_depth e g =
     (let nCheckDepth = int32 (arg_checkblocks e);
          nCheckDepth = (if nCheckDepth = 0 then 1000000000 else nCheckDepth);
          nCheckDepth = (if nCheckDepth > nBestHeight g then nBestHeight g else nCheckDepth)
      in nCheckDepth)"

text \<open>The walk from \<^verbatim>\<open>pindexBest\<close>; the result is \<^verbatim>\<open>pindexFork\<close> after the loop.\<close>

definition verify_best_chain :: "nat \<Rightarrow> env \<Rightarrow> CTxDB \<Rightarrow> globals \<Rightarrow> (error + nat option) option" where
  "verify_best_chain fuel e db g =
     (case verify_walk fuel e db (int32 (arg_checklevel e)) (check_depth e g) g (pindexBest g)
             (None, Map.empty) of
        None \<Rightarrow> None
      | Some (Inl err) \<Rightarrow> Some (Inl err)
      | Some (Inr st) \<Rightarrow> Some (Inr (fst st)))"

text \<open>The reorganisation after the walk. \<^verbatim>\<open>SetBestChain\<close> belongs to the rest of the
  node: the result is the call that is made, the block read and the node passed.\<close>

definition rewind :: "env \<Rightarrow> globals \<Rightarrow> nat option \<Rightarrow> error + (CBlock \<times> nat) option" where
  "rewind e g pindexFork =
     (case pindexFork of
        None \<Rightarrow> Inr None
      | Some fork \<Rightarrow>
          if fRequestShutdown e then Inr None
          else
            (case block_ReadFromDisk e (heap g ! fork) of
               None \<Rightarrow> Inl (LoadError ''LoadBlockIndex() : block.ReadFromDisk failed'')
             | Some block \<Rightarrow> Inr (Some (block, fork))))"

subsection \<open>The whole load\<close>

record load_outcome =
  out_globals :: globals
  out_db :: CTxDB
  out_SetBestChain :: "(CBlock \<times> nat) option"

definition LoadBlockIndex ::
  "nat \<Rightarrow> env \<Rightarrow> CTxDB \<Rightarrow> globals \<Rightarrow> (error + load_outcome) option" where
  "LoadBlockIndex fuel e db g =
     (let TotalNumBlocks = count_blocks e db;
          bestCheckpoint = bestCheckpoint_of (mapCheckpoints e) TotalNumBlocks
      in case load_pass e db g of
           Inl err \<Rightarrow> Some (Inl err)
         | Inr g1 \<Rightarrow>
             if fRequestShutdown e
             then Some (Inr \<lparr>out_globals = g1, out_db = db, out_SetBestChain = None\<rparr>)
             else
               (case load_best_chain db (trust_pass e g1) of
                  Inl err \<Rightarrow> Some (Inl err)
                | Inr (Return g2) \<Rightarrow>
                    Some (Inr \<lparr>out_globals = g2, out_db = db, out_SetBestChain = None\<rparr>)
                | Inr (Continue g2) \<Rightarrow>
                    (case init_sync_checkpoint e bestCheckpoint db g2 of
                       Inl err \<Rightarrow> Some (Inl err)
                     | Inr (db3, g3) \<Rightarrow>
                         let g4 = load_best_invalid_trust db3 g3 in
                         (case verify_best_chain fuel e db3 g4 of
                            None \<Rightarrow> None
                          | Some (Inl err) \<Rightarrow> Some (Inl err)
                          | Some (Inr pindexFork) \<Rightarrow>
                              (case rewind e g4 pindexFork of
                                 Inl err \<Rightarrow> Some (Inl err)
                               | Inr call \<Rightarrow>
                                   Some (Inr \<lparr>out_globals = g4, out_db = db3,
                                              out_SetBestChain = call\<rparr>))))))"

section \<open>Predicates and sample values used in the statements\<close>

text \<open>A persisted block-index record: an entry of the store whose key is the tag
  \<^verbatim>\<open>blockindex\<close> with a hash.\<close>

definition is_blockindex_entry :: "dbkey \<times> dbvalue \<Rightarrow> bool" where
  "is_blockindex_entry entry \<longleftrightarrow>
     fst (fst entry) = ''blockindex'' \<and> snd (fst entry) \<noteq> None"

text \<open>A disk record with every member zero, and a record of given hash links, height
  and nonce. In the sample environment the hash of a record is its nonce, the trust of
  a node is its \<^verbatim>\<open>nBits\<close>, and a block is proof-of-stake when its flags are odd.\<close>

definition null_CDiskBlockIndex :: CDiskBlockIndex where
  "null_CDiskBlockIndex =
     \<lparr>phashBlock = None, pprev = None, pnext = None, nFile = 0, nBlockPos = 0,
      nChainTrust = 0, nHeight = 0, nMint = 0, nMoneySupply = 0, nFlags = 0,
      nStakeModifier = 0, prevoutStake = COutPoint 0 (- 1), nStakeTime = 0,
      hashProofOfStake = 0, nVersion = 0, hashMerkleRoot = 0, nTime = 0, nBits = 0,
      nNonce = 0, hashPrev = 0, hashNext = 0\<rparr>"


definition sample_env :: env where
  "sample_env =
     \<lparr>fRequestShutdown = False,
      mapCheckpoints = [(0, 1)],
      GetBlockHash = (\<lambda>diskindex. ucast (nNonce diskindex)),
      GetBlockHashScrypt = (\<lambda>diskindex. ucast (nNonce diskindex)),
      GetBlockTrust = (\<lambda>node. uint (nBits node)),
      IsProofOfStake = (\<lambda>node. odd (unat (nFlags node))),
      hashGenesisBlock = 1,
      arg_checklevel = 1,
      arg_checkblocks = 2500,
      block_ReadFromDisk = (\<lambda>node. Some \<lparr>vtx = [], block_content = unat (nBlockPos node)\<rparr>),
      CheckBlock = (\<lambda>block fCheckSig. True),
      tx_GetHash = (\<lambda>tx. word_of_nat (tx_content tx)),
      tx_ReadFromDisk = (\<lambda>txpos. None),
      CheckTransaction = (\<lambda>tx. True),
      IsNull = (\<lambda>txpos. txpos_nFile txpos = - 1),
      Checkpoints_WriteSyncCheckpoint =
        (\<lambda>h d. (True, db_Put (''hashSyncCheckpoint'', None) (VHash h) d))\<rparr>"

text \<open>A store that holds a value under the key \<open>sample_key\<close>, with an open batch that
  writes, erases and writes that key again.\<close>

definition sample_key :: dbkey where
  "sample_key = (''tx'', Some 7)"

definition sample_db :: CTxDB where
  "sample_db =
     \<lparr>pdb = [(sample_key, VHash 1)],
      activeBatch = Some [Put sample_key (VHash 2), Delete sample_key, Put sample_key (VHash 3)]\<rparr>"

text \<open>The state before the load: an empty graph.\<close>

definition empty_globals :: globals where
  "empty_globals =
     \<lparr>mapBlockIndex = [], heap = [], pindexGenesisBlock = None, setStakeSeen = {},
      hashBestChain = 0, pindexBest = None, nBestHeight = - 1, nBestChainTrust = 0,
      nBestInvalidTrust = 0, hashSyncCheckpoint = 0\<rparr>"

text \<open>
  Notions for the statements about the verification walk. \<open>walk_path e depth g pindex ps\<close>
  says that the loop started at \<open>pindex\<close> visits exactly the blocks \<open>ps\<close>, in this order,
  and then stops: each block of \<open>ps\<close> is reached through \<^verbatim>\<open>pprev\<close>, has a predecessor
  and passes the test of the loop, and the node after the last one does not.
  \<open>note_pos\<close> is the entry the visit of a block adds to \<^verbatim>\<open>mapBlockPos\<close>.
\<close>

fun walk_path :: "env \<Rightarrow> int \<Rightarrow> globals \<Rightarrow> nat option \<Rightarrow> nat list \<Rightarrow> bool" where
  "walk_path e depth g pindex [] \<longleftrightarrow>
     (case pindex of
        None \<Rightarrow> True
      | Some p \<Rightarrow>
          pprev (heap g ! p) = None \<or> fRequestShutdown e
          \<or> nHeight (heap g ! p) < int32 (nBestHeight g - depth))"
| "walk_path e depth g pindex (p # ps) \<longleftrightarrow>
     pindex = Some p \<and> pprev (heap g ! p) \<noteq> None \<and> \<not> fRequestShutdown e
     \<and> \<not> nHeight (heap g ! p) < int32 (nBestHeight g - depth)
     \<and> walk_path e depth g (pprev (heap g ! p)) ps"

definition note_pos :: "int \<Rightarrow> globals \<Rightarrow> nat \<Rightarrow> blockpos_map \<Rightarrow> blockpos_map" where
  "note_pos nCheckLevel g p m =
     (if nCheckLevel > 1 then m((nFile (heap g ! p), nBlockPos (heap g ! p)) \<mapsto> p) else m)"

fun positions_seen :: "int \<Rightarrow> globals \<Rightarrow> nat list \<Rightarrow> blockpos_map \<Rightarrow> blockpos_map" where
  "positions_seen nCheckLevel g [] m = m"
| "positions_seen nCheckLevel g (p # ps) m =
     positions_seen nCheckLevel g ps (note_pos nCheckLevel g p m)"

text \<open>
  What it is for a block to fail a check, said of the block, the store and the
  environment, level by level as section 4.5 of the specification lists the checks.

  \<^item> Level 1: the block does not pass \<^verbatim>\<open>CheckBlock\<close>.
  \<^item> Levels 2 and 3 (\<open>reread_fails\<close>): a transaction has an index record whose
    position is read again, at level 2 only when it is not the position of the block,
    and the transaction at that position cannot be read or has another hash.
  \<^item> Level 4 (\<open>spent_fails\<close>): output \<open>i\<close> of a transaction has a spent marker that is
    not null and whose block position is not among the positions visited so far.
  \<^item> Level 6 (\<open>spender_fails\<close>): the transaction at such a marker cannot be read, does
    not pass \<^verbatim>\<open>CheckTransaction\<close>, or has no input that spends output \<open>i\<close>.
  \<^item> Level 5 (\<open>input_fails\<close>): the transaction an input spends from has an index record
    in which the output spent has no marker or a null one.

  A transaction that has no index record fails none of the checks of levels 2, 3, 4
  and 6. The level 5 check reads the marker list of an index record at a position
  computed from an empty list when the list is empty; \<open>input_in_range\<close> excludes this.
\<close>

definition spender_fails :: "env \<Rightarrow> uint256 \<Rightarrow> nat \<Rightarrow> CDiskTxPos \<Rightarrow> bool" where
  "spender_fails e hashTx i txpos \<longleftrightarrow>
     (case tx_ReadFromDisk e txpos of
        None \<Rightarrow> True
      | Some txSpend \<Rightarrow>
          \<not> CheckTransaction e txSpend
          \<or> COutPoint hashTx (word_of_nat i) \<notin> set (map prevout (vin txSpend)))"

definition spent_fails ::
  "env \<Rightarrow> int \<Rightarrow> blockpos_map \<Rightarrow> uint256 \<Rightarrow> nat \<times> CDiskTxPos \<Rightarrow> bool" where
  "spent_fails e nCheckLevel visited hashTx marker \<longleftrightarrow>
     \<not> IsNull e (snd marker) \<and>
     (visited (txpos_nFile (snd marker), txpos_nBlockPos (snd marker)) = None
      \<or> (nCheckLevel > 5 \<and> spender_fails e hashTx (fst marker) (snd marker)))"

definition reread_fails :: "env \<Rightarrow> int \<Rightarrow> CBlockIndex \<Rightarrow> CTransaction \<Rightarrow> CTxIndex \<Rightarrow> bool" where
  "reread_fails e nCheckLevel pindex tx txindex \<longleftrightarrow>
     (nCheckLevel > 2
      \<or> (nFile pindex, nBlockPos pindex) \<noteq>
          (txpos_nFile (txindex_pos txindex), txpos_nBlockPos (txindex_pos txindex)))
     \<and> (case tx_ReadFromDisk e (txindex_pos txindex) of
           None \<Rightarrow> True
         | Some txFound \<Rightarrow> tx_GetHash e txFound \<noteq> tx_GetHash e tx)"

definition input_fails :: "env \<Rightarrow> CTxDB \<Rightarrow> CTxIn \<Rightarrow> bool" where
  "input_fails e db txin \<longleftrightarrow>
     (case ReadTxIndex db (outpoint_hash (prevout txin)) of
        None \<Rightarrow> False
      | Some txindex \<Rightarrow>
          length (vSpent txindex) \<le> unat (outpoint_n (prevout txin))
          \<or> IsNull e (vSpent txindex ! unat (outpoint_n (prevout txin))))"

definition input_in_range :: "CTxDB \<Rightarrow> CTxIn \<Rightarrow> bool" where
  "input_in_range db txin \<longleftrightarrow>
     (case ReadTxIndex db (outpoint_hash (prevout txin)) of
        None \<Rightarrow> True
      | Some txindex \<Rightarrow> vSpent txindex \<noteq> [])"

definition tx_fails ::
  "env \<Rightarrow> CTxDB \<Rightarrow> int \<Rightarrow> CBlockIndex \<Rightarrow> blockpos_map \<Rightarrow> CTransaction \<Rightarrow> bool" where
  "tx_fails e db nCheckLevel pindex visited tx \<longleftrightarrow>
     (case ReadTxIndex db (tx_GetHash e tx) of
        None \<Rightarrow> False
      | Some txindex \<Rightarrow>
          reread_fails e nCheckLevel pindex tx txindex
          \<or> (nCheckLevel > 3 \<and>
              list_ex (spent_fails e nCheckLevel visited (tx_GetHash e tx))
                (enumerate 0 (vSpent txindex))))
     \<or> (nCheckLevel > 4 \<and> list_ex (input_fails e db) (vin tx))"

text \<open>
  A visited block fails a check at the level of the walk, \<open>m\<close> being the positions of
  the blocks visited before it; and its checks are run to the end: the block is read
  from disk and no level 5 check meets an empty marker list. \<open>failing_blocks\<close> are the
  blocks of a walk that fail a check, in the order of the walk.
\<close>

definition block_fails :: "env \<Rightarrow> CTxDB \<Rightarrow> int \<Rightarrow> globals \<Rightarrow> blockpos_map \<Rightarrow> nat \<Rightarrow> bool" where
  "block_fails e db nCheckLevel g m p \<longleftrightarrow>
     (case block_ReadFromDisk e (heap g ! p) of
        None \<Rightarrow> False
      | Some block \<Rightarrow>
          (nCheckLevel > 0 \<and> \<not> CheckBlock e block (nCheckLevel > 6))
          \<or> (nCheckLevel > 1 \<and>
              list_ex (tx_fails e db nCheckLevel (heap g ! p) (note_pos nCheckLevel g p m))
                (vtx block)))"

definition block_checked :: "env \<Rightarrow> CTxDB \<Rightarrow> int \<Rightarrow> globals \<Rightarrow> nat \<Rightarrow> bool" where
  "block_checked e db nCheckLevel g p \<longleftrightarrow>
     (case block_ReadFromDisk e (heap g ! p) of
        None \<Rightarrow> False
      | Some block \<Rightarrow>
          nCheckLevel \<le> 4
          \<or> list_all (\<lambda>tx. list_all (input_in_range db) (vin tx)) (vtx block))"

fun failing_blocks ::
  "env \<Rightarrow> CTxDB \<Rightarrow> int \<Rightarrow> globals \<Rightarrow> nat list \<Rightarrow> blockpos_map \<Rightarrow> nat list" where
  "failing_blocks e db nCheckLevel g [] m = []"
| "failing_blocks e db nCheckLevel g (p # ps) m =
     (if block_fails e db nCheckLevel g m p then [p] else [])
     @ failing_blocks e db nCheckLevel g ps (note_pos nCheckLevel g p m)"

text \<open>
  A chain of a genesis block and three blocks; the node of height \<open>i\<close> is at address \<open>i\<close>
  and has hash \<open>i + 1\<close> and \<^verbatim>\<open>nBits\<close> \<open>i + 1\<close>, and the tip is the block of height 3. \<open>heights_decrease\<close> says
  that along a list of nodes every later node is lower than every earlier one.
\<close>

definition sample_node :: "nat option \<Rightarrow> int \<Rightarrow> CBlockIndex" where
  "sample_node prev height =
     new_CBlockIndex\<lparr>pprev := prev, nHeight := height, nFile := 1,
                     nBlockPos := word_of_int height, nBits := word_of_int (height + 1)\<rparr>"

definition sample_chain :: globals where
  "sample_chain =
     empty_globals\<lparr>
       mapBlockIndex := [(1, 0), (2, 1), (3, 2), (4, 3)],
       heap := [sample_node None 0, sample_node (Some 0) 1, sample_node (Some 1) 2,
                sample_node (Some 2) 3],
       pindexGenesisBlock := Some 0,
       pindexBest := Some 3,
       nBestHeight := 3\<rparr>"

definition heights_decrease :: "globals \<Rightarrow> nat list \<Rightarrow> bool" where
  "heights_decrease g ps \<longleftrightarrow>
     sorted_wrt (\<lambda>p q. nHeight (heap g ! q) < nHeight (heap g ! p)) ps"

text \<open>Check level 1, where the blocks of height 3 and 1 fail \<^verbatim>\<open>CheckBlock\<close>.\<close>

definition sample_env_two_bad_blocks :: env where
  "sample_env_two_bad_blocks =
     sample_env\<lparr>
       block_ReadFromDisk :=
         (\<lambda>node. Some \<lparr>vtx = [], block_content = nat (nHeight node)\<rparr>),
       CheckBlock := (\<lambda>block fCheckSig. block_content block = 2)\<rparr>"

text \<open>Check level 2, where the block of height 2 holds one transaction, of hash 7.\<close>

definition sample_tx :: CTransaction where
  "sample_tx = \<lparr>vin = [], tx_content = 7\<rparr>"

definition sample_env_level2 :: env where
  "sample_env_level2 =
     sample_env\<lparr>
       arg_checklevel := 2,
       block_ReadFromDisk :=
         (\<lambda>node. Some \<lparr>vtx = (if nHeight node = 2 then [sample_tx] else []),
                        block_content = nat (nHeight node)\<rparr>)\<rparr>"

definition sample_db_empty :: CTxDB where
  "sample_db_empty = \<lparr>pdb = [], activeBatch = None\<rparr>"

text \<open>A store whose index record of that transaction names a position that is not
  the position of the block of height 2.\<close>

definition sample_db_mislocated :: CTxDB where
  "sample_db_mislocated =
     \<lparr>pdb = [((''tx'', Some 7), VTxIndex \<lparr>txindex_pos = CDiskTxPos 1 99 0, vSpent = []\<rparr>)],
      activeBatch = None\<rparr>"

text \<open>
  Check level 2 again: the block of height 2 holds the transaction of hash 7, which
  has no index record, and a transaction of hash 8, whose index record names the
  position of the block.
\<close>

definition sample_tx_located :: CTransaction where
  "sample_tx_located = \<lparr>vin = [], tx_content = 8\<rparr>"

definition sample_env_mixed_block :: env where
  "sample_env_mixed_block =
     sample_env\<lparr>
       arg_checklevel := 2,
       block_ReadFromDisk :=
         (\<lambda>node. Some \<lparr>vtx = (if nHeight node = 2 then [sample_tx, sample_tx_located] else []),
                        block_content = nat (nHeight node)\<rparr>)\<rparr>"

definition sample_db_located :: CTxDB where
  "sample_db_located =
     \<lparr>pdb = [((''tx'', Some 8), VTxIndex \<lparr>txindex_pos = CDiskTxPos 1 2 0, vSpent = []\<rparr>)],
      activeBatch = None\<rparr>"

text \<open>Check level 1, where the blocks of height 3 and 2 fail \<^verbatim>\<open>CheckBlock\<close> and the
  block of height 1 cannot be read from disk.\<close>

definition sample_env_unreadable_block :: env where
  "sample_env_unreadable_block =
     sample_env\<lparr>
       block_ReadFromDisk :=
         (\<lambda>node. if nHeight node = 1 then None
                  else Some \<lparr>vtx = [], block_content = nat (nHeight node)\<rparr>),
       CheckBlock := (\<lambda>block fCheckSig. False)\<rparr>"

text \<open>Check level 1, where every block is read and fails \<^verbatim>\<open>CheckBlock\<close>; and a chain
  whose heights do not decrease along the \<^verbatim>\<open>pprev\<close> links: the tip, at address 2, has
  height 2, and its predecessor, at address 1, has height 5.\<close>

definition sample_env_all_bad :: env where
  "sample_env_all_bad = sample_env\<lparr>CheckBlock := (\<lambda>block fCheckSig. False)\<rparr>"

definition sample_chain_disordered :: globals where
  "sample_chain_disordered =
     empty_globals\<lparr>
       mapBlockIndex := [(1, 0), (2, 1), (3, 2)],
       heap := [sample_node None 0, sample_node (Some 0) 5, sample_node (Some 1) 2],
       pindexGenesisBlock := Some 0,
       pindexBest := Some 2,
       nBestHeight := 2\<rparr>"

text \<open>
  Notions for the statements about the graph. In a well-formed graph every entry of
  \<^verbatim>\<open>mapBlockIndex\<close> points to a node of the heap, and no hash and no node occurs in two
  entries. \<open>trust_independent\<close> says that \<^verbatim>\<open>GetBlockTrust\<close> does not read the member
  \<^verbatim>\<open>nChainTrust\<close> it is used to compute. \<open>same_fields\<close> compares the persisted members
  of a node with a disk record.
\<close>

definition graph_wf :: "globals \<Rightarrow> bool" where
  "graph_wf g \<longleftrightarrow>
     distinct (map fst (mapBlockIndex g)) \<and> distinct (map snd (mapBlockIndex g))
     \<and> list_all (\<lambda>item. snd item < length (heap g)) (mapBlockIndex g)"

definition heights_increase :: "globals \<Rightarrow> bool" where
  "heights_increase g \<longleftrightarrow>
     list_all (\<lambda>item. case pprev (heap g ! snd item) of
                        None \<Rightarrow> True
                      | Some q \<Rightarrow> nHeight (heap g ! q) < nHeight (heap g ! snd item))
       (mapBlockIndex g)"

definition trust_independent :: "env \<Rightarrow> bool" where
  "trust_independent e \<longleftrightarrow>
     (\<forall>node t. GetBlockTrust e (node\<lparr>nChainTrust := t\<rparr>) = GetBlockTrust e node)"





section \<open>Properties of the record store\<close>

lemma Iterate_step_other:
  "op_key bop \<noteq> needle scanner \<Longrightarrow> Iterate_step bop scanner = scanner"
  by (cases bop) (simp_all add: CBatchScanner_Put_def CBatchScanner_Delete_def)

lemma Iterate_step_needle [simp]: "needle (Iterate_step bop scanner) = needle scanner"
  by (cases bop) (simp_all add: CBatchScanner_Put_def CBatchScanner_Delete_def)

lemma fold_Iterate_needle [simp]: "needle (fold Iterate_step batch scanner) = needle scanner"
  by (induction batch arbitrary: scanner) simp_all

lemma fold_Iterate_others:
  "\<forall>bop \<in> set batch. op_key bop \<noteq> needle scanner \<Longrightarrow>
   fold Iterate_step batch scanner = scanner"
  by (induction batch arbitrary: scanner) (simp_all add: Iterate_step_other)

lemma fold_Iterate_last:
  assumes "op_key bop = needle scanner"
    and "\<forall>later \<in> set b2. op_key later \<noteq> needle scanner"
  shows "fold Iterate_step (b1 @ bop # b2) scanner =
         Iterate_step bop (fold Iterate_step b1 scanner)"
proof -
  have "needle (Iterate_step bop (fold Iterate_step b1 scanner)) = needle scanner"
    by simp
  with assms(2) show ?thesis
    by (simp add: fold_Iterate_others)
qed

lemma ScanBatch_last_Put:
  assumes "activeBatch db = Some (b1 @ Put k v # b2)"
    and "\<forall>later \<in> set b2. op_key later \<noteq> k"
  shows "ScanBatch db k value0 = Some (True, Some v, False)"
proof -
  let ?s0 = "\<lparr>needle = k, deleted = False, foundValue = value0, foundEntry = False\<rparr>"
  have "fold Iterate_step (b1 @ Put k v # b2) ?s0 =
        Iterate_step (Put k v) (fold Iterate_step b1 ?s0)"
    by (rule fold_Iterate_last) (use assms(2) in simp_all)
  then show ?thesis
    using assms(1) by (simp add: ScanBatch_def CBatchScanner_Put_def del: fold_append)
qed

lemma ScanBatch_last_Delete:
  assumes "activeBatch db = Some (b1 @ Delete k # b2)"
    and "\<forall>later \<in> set b2. op_key later \<noteq> k"
  shows "\<exists>v. ScanBatch db k value0 = Some (True, v, True)"
proof -
  let ?s0 = "\<lparr>needle = k, deleted = False, foundValue = value0, foundEntry = False\<rparr>"
  have "fold Iterate_step (b1 @ Delete k # b2) ?s0 =
        Iterate_step (Delete k) (fold Iterate_step b1 ?s0)"
    by (rule fold_Iterate_last) (use assms(2) in simp_all)
  then show ?thesis
    using assms(1) by (simp add: ScanBatch_def CBatchScanner_Delete_def del: fold_append)
qed

text \<open>
  Claim C6. While a batch is open, a read of \<open>k\<close> after a buffered write of \<open>v\<close> to \<open>k\<close>
  returns \<open>v\<close>, and an existence check of \<open>k\<close> after a buffered erase of \<open>k\<close> is false,
  whatever the underlying store holds; when the batch holds several entries for \<open>k\<close>,
  the last of them decides, before earlier entries and before the store.
\<close>

theorem batch_read_your_writes:
  assumes "activeBatch db = Some batch"
  shows "Read (snd (Write db k v)) k = Some v \<and>
         \<not> Exists (snd (Erase db k)) k \<and>
         (\<forall>b1 b2 w. batch = b1 @ Put k w # b2 \<and> (\<forall>later \<in> set b2. op_key later \<noteq> k) \<longrightarrow>
            Read db k = Some w \<and> Exists db k) \<and>
         (\<forall>b1 b2. batch = b1 @ Delete k # b2 \<and> (\<forall>later \<in> set b2. op_key later \<noteq> k) \<longrightarrow>
            Read db k = None \<and> \<not> Exists db k)"
proof (intro conjI allI impI)
  have w: "activeBatch (snd (Write db k v)) = Some (batch @ Put k v # [])"
    using assms by (simp add: Write_def)
  show "Read (snd (Write db k v)) k = Some v"
    using ScanBatch_last_Put [OF w, of None] by (simp add: Read_def)
  have e: "activeBatch (snd (Erase db k)) = Some (batch @ Delete k # [])"
    using assms by (simp add: Erase_def)
  show "\<not> Exists (snd (Erase db k)) k"
    using ScanBatch_last_Delete [OF e, of None] by (auto simp: Exists_def)
next
  fix b1 b2 w
  assume h: "batch = b1 @ Put k w # b2 \<and> (\<forall>later \<in> set b2. op_key later \<noteq> k)"
  then have s: "ScanBatch db k None = Some (True, Some w, False)"
    using assms ScanBatch_last_Put [of db b1 k w b2 None] by simp
  show "Read db k = Some w" using s by (simp add: Read_def)
  show "Exists db k" using s by (simp add: Exists_def)
next
  fix b1 b2
  assume h: "batch = b1 @ Delete k # b2 \<and> (\<forall>later \<in> set b2. op_key later \<noteq> k)"
  then obtain v where s: "ScanBatch db k None = Some (True, v, True)"
    using assms ScanBatch_last_Delete [of db b1 k b2 None] by auto
  show "Read db k = None" using s by (simp add: Read_def)
  show "\<not> Exists db k" using s by (simp add: Exists_def)
qed

theorem batch_read_your_writes_witness:
  "activeBatch sample_db =
     Some [Put sample_key (VHash 2), Delete sample_key, Put sample_key (VHash 3)] \<and>
   db_Get (pdb sample_db) sample_key = Some (VHash 1) \<and>
   Read (snd (Write sample_db sample_key (VHash 9))) sample_key = Some (VHash 9) \<and>
   \<not> Exists (snd (Erase sample_db sample_key)) sample_key \<and>
   Read sample_db sample_key = Some (VHash 3) \<and>
   Exists sample_db sample_key"
proof -
  have open_batch: "activeBatch sample_db =
      Some [Put sample_key (VHash 2), Delete sample_key, Put sample_key (VHash 3)]"
    by (simp add: sample_db_def)
  note rule = batch_read_your_writes [OF open_batch, of sample_key "VHash 9"]
  have last_put: "Read sample_db sample_key = Some (VHash 3) \<and> Exists sample_db sample_key"
    using rule [THEN conjunct2, THEN conjunct2, THEN conjunct1,
                THEN spec [of _ "[Put sample_key (VHash 2), Delete sample_key]"],
                THEN spec [of _ "[]"], THEN spec [of _ "VHash 3"]]
    by simp
  have stored: "db_Get (pdb sample_db) sample_key = Some (VHash 1)"
    by (simp add: sample_db_def db_Get_def)
  show ?thesis
    using open_batch stored last_put rule by simp
qed

section \<open>Checkpoint selection\<close>

lemma checkpoint_step_simp:
  "checkpoint_step (N, b) key = (N, if (word_of_int key :: uint) < N then word_of_int key else b)"
  by (simp add: checkpoint_step_def)

lemma foldl_checkpoint_step:
  "foldl checkpoint_step (N, b) ks =
     (N, case filter (\<lambda>k. (word_of_int k :: uint) < N) ks of
           [] \<Rightarrow> b
         | k # fs \<Rightarrow> word_of_int (last (k # fs)))"
proof (induction ks arbitrary: b)
  case Nil
  then show ?case by simp
next
  case (Cons k ks)
  show ?case
    by (simp add: checkpoint_step_simp Cons.IH split: list.splits)
qed

lemma height_as_uint:
  assumes "0 \<le> k" "k < 2 ^ 31"
  shows "uint (word_of_int k :: uint) = k"
  using assms by (simp add: uint_word_of_int take_bit_int_eq_self)

lemma height_less:
  assumes "0 \<le> k" "k < 2 ^ 31"
  shows "(word_of_int k :: uint) < N \<longleftrightarrow> k < uint N"
  using height_as_uint [OF assms] by (simp add: word_less_def)

lemma sorted_last_greatest:
  "sorted (xs :: int list) \<Longrightarrow> x \<in> set xs \<Longrightarrow> x \<le> last xs"
  by (induction xs) auto

lemma bestCheckpoint_char:
  assumes keys: "\<forall>k \<in> fst ` set cps. 0 \<le> k \<and> k < 2 ^ 31"
  shows "uint (bestCheckpoint_of cps N) \<in> insert 0 {k \<in> fst ` set cps. k < uint N} \<and>
         (\<forall>k \<in> fst ` set cps. k < uint N \<longrightarrow> k \<le> uint (bestCheckpoint_of cps N))"
proof -
  let ?ks = "sort (map fst cps)"
  let ?fs = "filter (\<lambda>k. (word_of_int k :: uint) < N) ?ks"
  have fs: "?fs = filter (\<lambda>k. k < uint N) ?ks"
    by (rule filter_cong) (use keys height_less in auto)
  have best: "bestCheckpoint_of cps N = (case ?fs of [] \<Rightarrow> 0 | k # r \<Rightarrow> word_of_int (last (k # r)))"
    by (simp add: bestCheckpoint_of_def select_checkpoint_def foldl_checkpoint_step)
  show ?thesis
  proof (cases ?fs)
    case Nil
    then have "\<forall>k \<in> set ?ks. \<not> k < uint N"
      unfolding fs by (simp add: filter_empty_conv)
    with Nil best show ?thesis by auto
  next
    case (Cons k r)
    then have ne: "?fs \<noteq> []" by simp
    have lastin: "last ?fs \<in> set ?fs" using ne by (rule last_in_set)
    then have lk: "last ?fs \<in> fst ` set cps" "last ?fs < uint N"
      unfolding fs by auto
    have b: "bestCheckpoint_of cps N = word_of_int (last ?fs)"
      using best Cons by simp
    have u: "uint (bestCheckpoint_of cps N) = last ?fs"
      unfolding b using keys lk(1) by (intro height_as_uint) auto
    have srt: "sorted ?fs" by (rule sorted_wrt_filter) simp
    have "\<forall>x \<in> fst ` set cps. x < uint N \<longrightarrow> x \<le> last ?fs"
    proof (intro ballI impI)
      fix x assume "x \<in> fst ` set cps" "x < uint N"
      then have "x \<in> set ?fs" unfolding fs by auto
      with srt show "x \<le> last ?fs" by (rule sorted_last_greatest)
    qed
    with u lk show ?thesis by auto
  qed
qed

text \<open>
  Claim C1, as the code has it. The table is any checkpoint table whose heights are
  non-negative \<^verbatim>\<open>int\<close>s and \<open>N\<close> is the count of the first pass. The value selected is
  0 or a height of the table. When \<open>N\<close> is at least 250 it is below \<open>N\<close> unless it is 0,
  and no height of the table below \<open>N\<close> is greater: the bound of the comparison is
  \<open>N\<close> itself, the 250 is not subtracted from it.
\<close>

theorem select_checkpoint_greatest_below_count:
  assumes "\<forall>k \<in> fst ` set checkpoints. 0 \<le> k \<and> k < 2 ^ 31"
  shows "(uint (bestCheckpoint_of checkpoints N) = 0 \<or>
          uint (bestCheckpoint_of checkpoints N) \<in> fst ` set checkpoints) \<and>
         (250 \<le> uint N \<longrightarrow>
            (uint (bestCheckpoint_of checkpoints N) \<noteq> 0 \<longrightarrow>
               uint (bestCheckpoint_of checkpoints N) < uint N) \<and>
            (\<forall>k \<in> fst ` set checkpoints.
               k < uint N \<longrightarrow> k \<le> uint (bestCheckpoint_of checkpoints N)))"
  using bestCheckpoint_char [OF assms, of N] by auto

theorem select_checkpoint_greatest_below_count_witness:
  "list_all (\<lambda>k. 0 \<le> k \<and> k < 2 ^ 31) (map fst [(500 :: int, 4 :: uint256), (1000, 6), (800, 5)]) \<and>
   250 \<le> uint (900 :: uint) \<and>
   bestCheckpoint_of [(500, 4), (1000, 6), (800, 5)] 900 = 800 \<and>
   uint (bestCheckpoint_of [(500, 4), (1000, 6), (800, 5)] 900) \<in> {500, 1000, 800 :: int} \<and>
   uint (bestCheckpoint_of [(500, 4), (1000, 6), (800, 5)] 900) < uint (900 :: uint) \<and>
   500 \<le> uint (bestCheckpoint_of [(500, 4), (1000, 6), (800, 5)] 900)"
proof -
  have keys: "\<forall>k \<in> fst ` set [(500 :: int, 4 :: uint256), (1000, 6), (800, 5)]. 0 \<le> k \<and> k < 2 ^ 31"
    by simp
  have val: "bestCheckpoint_of [(500, 4), (1000, 6), (800, 5)] 900 = 800"
    by (simp add: bestCheckpoint_of_def select_checkpoint_def checkpoint_step_def)
  show ?thesis
    using keys val select_checkpoint_greatest_below_count [OF keys, of 900] by simp
qed

text \<open>
  With 1000 records and a checkpoint at height 800 the selection returns 800, which is
  not below 1000 - 250.
\<close>

theorem select_checkpoint_margin_counterexample:
  "bestCheckpoint_of [(800, 5)] 1000 = 800 \<and>
   \<not> uint (bestCheckpoint_of [(800, 5)] 1000) < uint (1000 :: uint) - 250"
  by (simp add: bestCheckpoint_of_def select_checkpoint_def checkpoint_step_def)

section \<open>The iterator over the block-index records\<close>

lemma sorted_dropWhile_filter:
  "sorted (map f xs) \<Longrightarrow> dropWhile (\<lambda>x. f x < s) xs = filter (\<lambda>x. \<not> f x < s) xs"
proof (induction xs)
  case Nil
  then show ?case by simp
next
  case (Cons x xs)
  show ?case
  proof (cases "f x < s")
    case True
    with Cons show ?thesis by simp
  next
    case False
    with Cons.prems have "\<forall>y \<in> set xs. \<not> f y < s" by auto
    then have "filter (\<lambda>x. \<not> f x < s) xs = xs" by simp
    with False show ?thesis by simp
  qed
qed

lemma sorted_takeWhile_filter:
  "sorted (map f xs) \<Longrightarrow>
   (\<forall>x \<in> set xs. \<forall>y \<in> set xs. P x \<and> f y \<le> f x \<longrightarrow> P y) \<Longrightarrow>
   takeWhile P xs = filter P xs"
proof (induction xs)
  case Nil
  then show ?case by simp
next
  case (Cons x xs)
  have closed: "\<forall>u \<in> set xs. \<forall>y \<in> set xs. P u \<and> f y \<le> f u \<longrightarrow> P y"
    using Cons.prems(2) by (meson list.set_intros(2))
  have srt: "sorted (map f xs)" using Cons.prems(1) by simp
  have ih: "takeWhile P xs = filter P xs"
    using Cons.IH [OF srt closed] .
  show ?case
  proof (cases "P x")
    case True
    with ih show ?thesis by simp
  next
    case False
    have "\<forall>z \<in> set xs. \<not> P z"
    proof
      fix z assume z: "z \<in> set xs"
      with Cons.prems(1) have "f x \<le> f z" by simp
      moreover have "P z \<and> f x \<le> f z \<longrightarrow> P x"
        using Cons.prems(2) z by (meson list.set_intros)
      ultimately show "\<not> P z" using False by blast
    qed
    then have "filter P xs = []" by (simp add: filter_empty_conv)
    with False show ?thesis by simp
  qed
qed

lemma key_order_between:
  assumes "key_order (t, Some 0) \<le> key_order k"
    and "key_order k \<le> key_order (t, p)"
  shows "fst k = t"
proof -
  obtain t' p' where k: "k = (t', p')" by (cases k)
  from assms have l: "length t' = length t"
    by (auto simp: k key_order_def)
  with assms show ?thesis
    by (auto simp: k key_order_def)
qed

lemma key_order_start:
  "\<not> key_order k < key_order (t, Some 0) \<and> fst k = t \<longleftrightarrow> fst k = t \<and> snd k \<noteq> None"
  by (cases k) (auto simp: key_order_def split: option.splits)

lemma Seek_filter:
  "Seek k (NewIterator d) =
   filter (\<lambda>entry. \<not> key_order (fst entry) < key_order k) (NewIterator d)"
  unfolding Seek_def by (rule sorted_dropWhile_filter) (simp add: NewIterator_def)

lemma Seek_range:
  "takeWhile (\<lambda>entry. fst (fst entry) = t) (Seek (t, Some 0) (NewIterator d)) =
   filter (\<lambda>entry. fst (fst entry) = t \<and> snd (fst entry) \<noteq> None) (NewIterator d)"
proof -
  let ?f = "\<lambda>entry :: dbkey \<times> dbvalue. key_order (fst entry)"
  let ?s = "key_order (t, Some 0)"
  let ?P = "\<lambda>entry :: dbkey \<times> dbvalue. fst (fst entry) = t"
  let ?xs = "NewIterator d"
  let ?ys = "filter (\<lambda>x. \<not> ?f x < ?s) ?xs"
  have srt: "sorted (map ?f ?xs)" by (simp add: NewIterator_def)
  have srt2: "sorted (map ?f ?ys)"
    using srt by (rule sorted_filter)
  have "takeWhile ?P ?ys = filter ?P ?ys"
  proof (rule sorted_takeWhile_filter [OF srt2], intro ballI impI)
    fix x y
    assume "x \<in> set ?ys" and y: "y \<in> set ?ys" and h: "?P x \<and> ?f y \<le> ?f x"
    from y have 1: "?s \<le> ?f y" by auto
    have "?f x = key_order (t, snd (fst x))"
      using h by (metis prod.collapse)
    with h have 2: "?f y \<le> key_order (t, snd (fst x))" by simp
    show "?P y" using 1 2 by (rule key_order_between)
  qed
  also have "\<dots> = filter (\<lambda>entry. fst (fst entry) = t \<and> snd (fst entry) \<noteq> None) ?xs"
    unfolding filter_filter
    by (rule filter_cong) (use key_order_start in auto)
  finally show ?thesis unfolding Seek_filter .
qed

lemma blockindex_start_range:
  "takeWhile (\<lambda>entry. fst (fst entry) = ''blockindex'') (blockindex_start d) =
   filter is_blockindex_entry (NewIterator d)"
  unfolding blockindex_start_def is_blockindex_entry_def by (rule Seek_range)

section \<open>Count pass\<close>

lemma count_pass_takeWhile:
  "count_pass False it n =
     n + of_nat (length (takeWhile (\<lambda>entry. fst (fst entry) = ''blockindex'') it))
       + (if \<forall>entry \<in> set it. fst (fst entry) = ''blockindex'' then 0 else 1)"
proof (induction it arbitrary: n)
  case Nil
  then show ?case by simp
next
  case (Cons entry it)
  show ?case
  proof (cases "fst (fst entry) = ''blockindex''")
    case True
    then show ?thesis by (simp add: Cons.IH)
  next
    case False
    then show ?thesis by simp
  qed
qed

text \<open>
  What the count pass computes when no shutdown is requested: the number of persisted
  block-index records, and one more when the store holds a key after them, since the
  counter is stepped before the tag of the key is looked at.
\<close>

lemma count_blocks_eq:
  assumes "\<not> fRequestShutdown e"
  shows "count_blocks e db =
           of_nat (length (filter is_blockindex_entry (pdb db)))
           + (if \<forall>entry \<in> set (blockindex_start (pdb db)). fst (fst entry) = ''blockindex''
              then 0 else 1)"
proof -
  have "length (filter is_blockindex_entry (NewIterator (pdb db))) =
        length (filter is_blockindex_entry (pdb db))"
    by (simp add: NewIterator_def filter_sort)
  then show ?thesis
    using assms
    by (simp add: count_blocks_def count_pass_takeWhile blockindex_start_range)
qed

text \<open>
  Claim C8 at a store that holds one block-index record and the record of the best
  chain: no shutdown is requested, the store holds one block-index record, and the
  count pass produces 2.
\<close>

theorem count_pass_counts_stop_key:
  "length (filter is_blockindex_entry
      [((''blockindex'', Some 1), VBlockIndex null_CDiskBlockIndex),
       ((''hashBestChain'', None), VHash 1)]) = 1 \<and>
   count_pass False
     (blockindex_start
        [((''blockindex'', Some 1), VBlockIndex null_CDiskBlockIndex),
         ((''hashBestChain'', None), VHash 1)]) 0 = 2"
  by (simp add: is_blockindex_entry_def blockindex_start_def Seek_def NewIterator_def
        key_order_def)

section \<open>InsertBlockIndex\<close>

lemma map_of_insort_new:
  "map_of m h = None \<Longrightarrow>
   map_of (insort_key fst (h, p) m) k = (if k = h then Some p else map_of m k)"
proof (induction m)
  case Nil
  then show ?case by simp
next
  case (Cons x m)
  obtain a b where x: "x = (a, b)" by (cases x)
  from Cons.prems have "a \<noteq> h" "map_of m h = None"
    by (auto simp: x split: if_splits)
  with Cons.IH show ?case by (auto simp: x)
qed

lemma set_insort_fst: "set (insort_key fst x m) = insert x (set m)"
  by (simp add: set_insort_key)

lemma distinct_fst_insort:
  "fst x \<notin> fst ` set m \<Longrightarrow> distinct (map fst m) \<Longrightarrow> distinct (map fst (insort_key fst x m))"
  by (induction m) (auto simp: set_insort_key)

lemma InsertBlockIndex_zero: "InsertBlockIndex 0 g = (None, g)"
  by (simp add: InsertBlockIndex_def)

lemma InsertBlockIndex_existing:
  "h \<noteq> 0 \<Longrightarrow> map_of (mapBlockIndex g) h = Some p \<Longrightarrow> InsertBlockIndex h g = (Some p, g)"
  by (simp add: InsertBlockIndex_def)

lemma InsertBlockIndex_new:
  "h \<noteq> 0 \<Longrightarrow> map_of (mapBlockIndex g) h = None \<Longrightarrow>
   InsertBlockIndex h g =
     (Some (length (heap g)),
      g\<lparr>heap := heap g @ [new_CBlockIndex\<lparr>phashBlock := Some h\<rparr>],
        mapBlockIndex := insort_key fst (h, length (heap g)) (mapBlockIndex g)\<rparr>)"
  by (simp add: InsertBlockIndex_def Let_def)

lemma InsertBlockIndex_lookup:
  "map_of (mapBlockIndex (snd (InsertBlockIndex h g))) k =
     (if k = h \<and> h \<noteq> 0 \<and> map_of (mapBlockIndex g) h = None
      then Some (length (heap g)) else map_of (mapBlockIndex g) k)"
proof (cases "h = 0")
  case True
  then show ?thesis by (simp add: InsertBlockIndex_zero)
next
  case False
  show ?thesis
  proof (cases "map_of (mapBlockIndex g) h")
    case None
    with False show ?thesis
      by (simp add: InsertBlockIndex_new map_of_insort_new)
  next
    case (Some p)
    with False show ?thesis
      by (simp add: InsertBlockIndex_existing)
  qed
qed

lemma InsertBlockIndex_result:
  "fst (InsertBlockIndex h g) = (if h = 0 then None else map_of (mapBlockIndex (snd (InsertBlockIndex h g))) h)"
proof (cases "h = 0")
  case True
  then show ?thesis by (simp add: InsertBlockIndex_zero)
next
  case False
  show ?thesis
  proof (cases "map_of (mapBlockIndex g) h")
    case None
    with False show ?thesis
      by (simp add: InsertBlockIndex_new map_of_insort_new)
  next
    case (Some p)
    with False show ?thesis
      by (simp add: InsertBlockIndex_existing)
  qed
qed

lemma InsertBlockIndex_distinct:
  assumes "distinct (map fst (mapBlockIndex g))"
  shows "distinct (map fst (mapBlockIndex (snd (InsertBlockIndex h g))))"
proof (cases "h = 0")
  case True
  with assms show ?thesis by (simp add: InsertBlockIndex_zero)
next
  case nz: False
  show ?thesis
  proof (cases "map_of (mapBlockIndex g) h")
    case None
    then have "h \<notin> fst ` set (mapBlockIndex g)"
      by (simp add: map_of_eq_None_iff)
    with assms show ?thesis
      by (simp add: InsertBlockIndex_new [OF nz None] distinct_fst_insort)
  next
    case (Some p)
    with assms nz show ?thesis by (simp add: InsertBlockIndex_existing)
  qed
qed

text \<open>
  Claim C9. For the zero hash \<^verbatim>\<open>InsertBlockIndex\<close> returns \<^verbatim>\<open>NULL\<close> and leaves the graph
  as it is. For a non-zero hash \<open>h\<close> it returns a node \<open>p\<close>, and a second call returns the
  same node and changes nothing. If \<open>h\<close> had no entry, the first call adds the one entry
  \<open>(h, p)\<close> with a newly allocated node; if it had one, the graph is unchanged. An entry
  survives every later insertion, of any hash, so every later call for \<open>h\<close> finds \<open>p\<close>;
  and a map with one entry per hash stays so.
\<close>

theorem InsertBlockIndex_idempotent:
  "InsertBlockIndex 0 g = (None, g) \<and>
   (h \<noteq> 0 \<longrightarrow>
      (\<exists>p. fst (InsertBlockIndex h g) = Some p \<and>
           map_of (mapBlockIndex (snd (InsertBlockIndex h g))) h = Some p \<and>
           InsertBlockIndex h (snd (InsertBlockIndex h g)) = (Some p, snd (InsertBlockIndex h g)) \<and>
           (map_of (mapBlockIndex g) h = None \<longrightarrow>
              p = length (heap g) \<and>
              length (heap (snd (InsertBlockIndex h g))) = Suc (length (heap g)) \<and>
              set (mapBlockIndex (snd (InsertBlockIndex h g))) =
                insert (h, p) (set (mapBlockIndex g)) \<and>
              length (mapBlockIndex (snd (InsertBlockIndex h g))) =
                Suc (length (mapBlockIndex g))) \<and>
           (map_of (mapBlockIndex g) h \<noteq> None \<longrightarrow> snd (InsertBlockIndex h g) = g))) \<and>
   (\<forall>k q. map_of (mapBlockIndex g) k = Some q \<longrightarrow>
      map_of (mapBlockIndex (snd (InsertBlockIndex h g))) k = Some q) \<and>
   (distinct (map fst (mapBlockIndex g)) \<longrightarrow>
      distinct (map fst (mapBlockIndex (snd (InsertBlockIndex h g)))))"
proof (intro conjI impI allI)
  show "InsertBlockIndex 0 g = (None, g)" by (rule InsertBlockIndex_zero)
next
  assume nz: "h \<noteq> 0"
  show "\<exists>p. fst (InsertBlockIndex h g) = Some p \<and>
           map_of (mapBlockIndex (snd (InsertBlockIndex h g))) h = Some p \<and>
           InsertBlockIndex h (snd (InsertBlockIndex h g)) = (Some p, snd (InsertBlockIndex h g)) \<and>
           (map_of (mapBlockIndex g) h = None \<longrightarrow>
              p = length (heap g) \<and>
              length (heap (snd (InsertBlockIndex h g))) = Suc (length (heap g)) \<and>
              set (mapBlockIndex (snd (InsertBlockIndex h g))) =
                insert (h, p) (set (mapBlockIndex g)) \<and>
              length (mapBlockIndex (snd (InsertBlockIndex h g))) =
                Suc (length (mapBlockIndex g))) \<and>
           (map_of (mapBlockIndex g) h \<noteq> None \<longrightarrow> snd (InsertBlockIndex h g) = g)"
  proof (cases "map_of (mapBlockIndex g) h")
    case None
    let ?g' = "snd (InsertBlockIndex h g)"
    have look: "map_of (mapBlockIndex ?g') h = Some (length (heap g))"
      using nz None by (simp add: InsertBlockIndex_lookup)
    have again: "InsertBlockIndex h ?g' = (Some (length (heap g)), ?g')"
      using nz look by (rule InsertBlockIndex_existing)
    show ?thesis
      using nz None look again
      by (intro exI [of _ "length (heap g)"])
         (simp add: InsertBlockIndex_new set_insort_key)
  next
    case (Some p)
    then show ?thesis
      using nz by (intro exI [of _ p]) (simp add: InsertBlockIndex_existing)
  qed
next
  fix k q
  assume "map_of (mapBlockIndex g) k = Some q"
  then show "map_of (mapBlockIndex (snd (InsertBlockIndex h g))) k = Some q"
    by (auto simp: InsertBlockIndex_lookup)
next
  assume "distinct (map fst (mapBlockIndex g))"
  then show "distinct (map fst (mapBlockIndex (snd (InsertBlockIndex h g))))"
    by (rule InsertBlockIndex_distinct)
qed

theorem InsertBlockIndex_idempotent_witness:
  "(5 :: uint256) \<noteq> 0 \<and>
   map_of (mapBlockIndex empty_globals) 5 = None \<and>
   distinct (map fst (mapBlockIndex empty_globals)) \<and>
   fst (InsertBlockIndex 5 empty_globals) = Some 0 \<and>
   InsertBlockIndex 5 (snd (InsertBlockIndex 5 empty_globals)) =
     (Some 0, snd (InsertBlockIndex 5 empty_globals)) \<and>
   set (mapBlockIndex (snd (InsertBlockIndex 5 empty_globals))) = {(5, 0)} \<and>
   length (heap (snd (InsertBlockIndex 5 empty_globals))) = 1 \<and>
   distinct (map fst (mapBlockIndex (snd (InsertBlockIndex 5 empty_globals))))"
proof -
  have nz: "(5 :: uint256) \<noteq> 0" by simp
  have none: "map_of (mapBlockIndex empty_globals) 5 = None"
    by (simp add: empty_globals_def)
  have dist: "distinct (map fst (mapBlockIndex empty_globals))"
    by (simp add: empty_globals_def)
  have start: "length (heap empty_globals) = 0" "set (mapBlockIndex empty_globals) = {}"
    by (simp_all add: empty_globals_def)
  show ?thesis
    using InsertBlockIndex_idempotent [where g = empty_globals and h = 5] nz none dist start
    by auto
qed

section \<open>Loading the best chain pointer\<close>

lemma load_best_chain_unread:
  "ReadHashBestChain db = None \<Longrightarrow>
   load_best_chain db g =
     (if pindexGenesisBlock g = None then Inr (Return g)
      else Inl (LoadError ''CTxDB::LoadBlockIndex() : hashBestChain not loaded''))"
  by (simp add: load_best_chain_def)

lemma load_best_chain_read:
  "ReadHashBestChain db = Some h \<Longrightarrow>
   isl (load_best_chain db g) \<longleftrightarrow> map_of (mapBlockIndex g) h = None"
  by (simp add: load_best_chain_def split: option.splits)

text \<open>
  Claim C7, as the code has it. The step that loads the best chain pointer ends in a
  load error in two cases and no other: the hash of the tip cannot be read although a
  genesis block was found, or the hash read has no node in the graph. When the hash
  cannot be read and no genesis block was found, the load ends with success.
\<close>

theorem load_best_chain_fails_iff:
  "(isl (load_best_chain db g) \<longleftrightarrow>
      (ReadHashBestChain db = None \<and> pindexGenesisBlock g \<noteq> None) \<or>
      (\<exists>h. ReadHashBestChain db = Some h \<and> h \<notin> fst ` set (mapBlockIndex g))) \<and>
   (ReadHashBestChain db = None \<and> pindexGenesisBlock g = None \<longrightarrow>
      load_best_chain db g = Inr (Return g))"
proof (cases "ReadHashBestChain db")
  case None
  then show ?thesis by (simp add: load_best_chain_unread)
next
  case (Some h)
  then show ?thesis
    by (simp add: load_best_chain_read map_of_eq_None_iff)
qed

text \<open>The error of that step is the result of the whole load.\<close>

lemma LoadBlockIndex_best_chain_error:
  assumes "load_pass e db g = Inr g1" and "\<not> fRequestShutdown e"
    and "load_best_chain db (trust_pass e g1) = Inl err"
  shows "LoadBlockIndex fuel e db g = Some (Inl err)"
  using assms by (simp add: LoadBlockIndex_def)

lemma LoadBlockIndex_fresh:
  assumes "load_pass e db g = Inr g1" and "\<not> fRequestShutdown e"
    and "ReadHashBestChain db = None" and "pindexGenesisBlock (trust_pass e g1) = None"
  shows "LoadBlockIndex fuel e db g =
           Some (Inr \<lparr>out_globals = trust_pass e g1, out_db = db, out_SetBestChain = None\<rparr>)"
  using assms by (simp add: LoadBlockIndex_def load_best_chain_unread)

theorem load_best_chain_fails_iff_witness:
  "ReadHashBestChain \<lparr>pdb = [], activeBatch = None\<rparr> = None \<and>
   pindexGenesisBlock empty_globals = None \<and>
   load_best_chain \<lparr>pdb = [], activeBatch = None\<rparr> empty_globals = Inr (Return empty_globals) \<and>
   \<not> isl (load_best_chain \<lparr>pdb = [], activeBatch = None\<rparr> empty_globals)"
proof -
  have unread: "ReadHashBestChain \<lparr>pdb = [], activeBatch = None\<rparr> = None"
    by (simp add: ReadHashBestChain_def Read_def ScanBatch_def db_Get_def)
  have nogen: "pindexGenesisBlock empty_globals = None"
    by (simp add: empty_globals_def)
  show ?thesis
    using load_best_chain_fails_iff [of "\<lparr>pdb = [], activeBatch = None\<rparr>" empty_globals]
      unread nogen
    by simp
qed

text \<open>
  An empty store and an empty graph: no genesis block is found and the hash of the tip
  cannot be read, and the load returns \<^verbatim>\<open>true\<close>.
\<close>

theorem load_fresh_store_counterexample:
  "pindexGenesisBlock empty_globals = None \<and>
   ReadHashBestChain \<lparr>pdb = [], activeBatch = None\<rparr> = None \<and>
   LoadBlockIndex 0 sample_env \<lparr>pdb = [], activeBatch = None\<rparr> empty_globals =
     Some (Inr \<lparr>out_globals = empty_globals, out_db = \<lparr>pdb = [], activeBatch = None\<rparr>,
                out_SetBestChain = None\<rparr>)"
proof -
  have unread: "ReadHashBestChain \<lparr>pdb = [], activeBatch = None\<rparr> = None"
    by (simp add: ReadHashBestChain_def Read_def ScanBatch_def db_Get_def)
  have loaded: "load_pass sample_env \<lparr>pdb = [], activeBatch = None\<rparr> empty_globals =
      Inr empty_globals"
    by (simp add: load_pass_def blockindex_start_def Seek_def NewIterator_def)
  have trust: "trust_pass sample_env empty_globals = empty_globals"
    by (simp add: trust_pass_def vSortedByHeight_def empty_globals_def)
  have live: "\<not> fRequestShutdown sample_env"
    by (simp add: sample_env_def)
  have nogen: "pindexGenesisBlock empty_globals = None"
    by (simp add: empty_globals_def)
  show ?thesis
    using unread nogen LoadBlockIndex_fresh [OF loaded live unread, of 0]
    by (simp add: trust)
qed

section \<open>Verification walk\<close>

text \<open>A value of the 32-bit range is its own low 32 bits.\<close>

lemma int32_id: "- (2 ^ 31) \<le> x \<Longrightarrow> x < 2 ^ 31 \<Longrightarrow> int32 x = x"
  unfolding int32_def by (simp add: sint_sbintrunc' signed_take_bit_int_eq_self)

text \<open>
  Each check of the walk either leaves the repair point as it is or sets it to the
  predecessor of the block; it sets it exactly when the check fails.
\<close>

lemma outpoint_eq: "outpoint_hash c = h \<and> outpoint_n c = n \<longleftrightarrow> c = COutPoint h n"
  by (cases c) auto

lemma check_spending_tx_eq:
  "check_spending_tx e hashTx (word_of_nat i) txpos back fork =
     (if spender_fails e hashTx i txpos then back else fork)"
  by (auto simp: check_spending_tx_def spender_fails_def Let_def list_ex_iff outpoint_eq image_iff
           split: option.splits)

lemma check_vSpent_eq:
  "check_vSpent e lvl m hashTx back ts (word_of_nat k) fork =
     (if list_ex (spent_fails e lvl m hashTx) (enumerate k ts) then back else fork)"
proof (induction ts arbitrary: k fork)
  case Nil
  show ?case by simp
next
  case (Cons txpos rest)
  have next_output: "(word_of_nat k :: uint) + 1 = word_of_nat (Suc k)" by simp
  have here: "(if \<not> IsNull e txpos then
          (let posFind = (txpos_nFile txpos, txpos_nBlockPos txpos);
               fork1 = (if m posFind = None then back else fork)
           in if lvl > 5 then check_spending_tx e hashTx (word_of_nat k) txpos back fork1
              else fork1)
        else fork) =
        (if spent_fails e lvl m hashTx (k, txpos) then back else fork)"
    by (simp add: spent_fails_def check_spending_tx_eq Let_def)
  show ?case
    by (simp only: check_vSpent.simps next_output Cons.IH enumerate_simps list_ex_Cons_iff here)
       simp
qed

lemma check_prevouts_eq:
  "list_all (input_in_range db) ins \<Longrightarrow>
   check_prevouts e db back ins fork =
     Inr (if list_ex (input_fails e db) ins then back else fork)"
proof (induction ins arbitrary: fork)
  case Nil
  show ?case by simp
next
  case (Cons txin rest)
  then have rest: "\<And>f. check_prevouts e db back rest f =
      Inr (if list_ex (input_fails e db) rest then back else f)"
    by simp
  from Cons.prems have here: "input_in_range db txin" by simp
  show ?case
  proof (cases "ReadTxIndex db (outpoint_hash (prevout txin))")
    case None
    then have "\<not> input_fails e db txin" by (simp add: input_fails_def)
    with None show ?thesis by (simp add: rest)
  next
    case (Some txindex)
    with here have ne: "vSpent txindex \<noteq> []" by (simp add: input_in_range_def)
    then have less: "length (vSpent txindex) - Suc 0 < n \<longleftrightarrow> length (vSpent txindex) \<le> n" for n
      by (cases "vSpent txindex") auto
    have fails: "input_fails e db txin \<longleftrightarrow>
        length (vSpent txindex) - Suc 0 < unat (outpoint_n (prevout txin))
        \<or> IsNull e (vSpent txindex ! unat (outpoint_n (prevout txin)))"
      using Some by (simp add: input_fails_def less)
    show ?thesis
      using Some ne by (simp add: rest fails)
  qed
qed

lemma check_prevouts_out_of_range:
  "\<not> list_all (input_in_range db) ins \<Longrightarrow> check_prevouts e db back ins fork = Inl OutOfRange"
proof (induction ins arbitrary: fork)
  case Nil
  then show ?case by simp
next
  case (Cons txin rest)
  show ?case
  proof (cases "input_in_range db txin")
    case True
    with Cons.prems have "\<not> list_all (input_in_range db) rest" by simp
    then have "\<And>f. check_prevouts e db back rest f = Inl OutOfRange" by (rule Cons.IH)
    then show ?thesis by (simp split: option.splits)
  next
    case False
    then show ?thesis by (auto simp: input_in_range_def split: option.splits)
  qed
qed

lemma check_tx_eq:
  assumes "lvl \<le> 4 \<or> list_all (input_in_range db) (vin tx)"
  shows "check_tx e db lvl pindex m tx fork =
           Inr (if tx_fails e db lvl pindex m tx then pprev pindex else fork)"
proof -
  have zero: "(0 :: uint) = word_of_nat 0" by simp
  show ?thesis
  proof (cases "ReadTxIndex db (tx_GetHash e tx)")
    case None
    with assms show ?thesis
      by (auto simp: check_tx_def tx_fails_def check_prevouts_eq)
  next
    case (Some txindex)
    with assms show ?thesis
      unfolding check_tx_def tx_fails_def Let_def
      by (simp only: zero check_vSpent_eq)
         (auto simp: reread_fails_def check_prevouts_eq split: option.splits)
  qed
qed

lemma check_vtx_eq:
  assumes "lvl \<le> 4 \<or> list_all (\<lambda>tx. list_all (input_in_range db) (vin tx)) txs"
  shows "check_vtx e db lvl pindex m txs fork =
           Inr (if list_ex (tx_fails e db lvl pindex m) txs then pprev pindex else fork)"
  using assms
proof (induction txs arbitrary: fork)
  case Nil
  show ?case by simp
next
  case (Cons tx rest)
  from Cons.prems have here: "lvl \<le> 4 \<or> list_all (input_in_range db) (vin tx)"
    and there: "lvl \<le> 4 \<or> list_all (\<lambda>tx. list_all (input_in_range db) (vin tx)) rest"
    by auto
  show ?case
    by (simp add: check_tx_eq [OF here] Cons.IH [OF there])
qed

lemma verify_block_step:
  assumes read: "block_ReadFromDisk e (heap g ! p) = Some block"
    and checked: "block_checked e db lvl g p"
  shows "verify_block e db lvl g p block (fork, m) =
           Inr (if block_fails e db lvl g m p then pprev (heap g ! p) else fork,
                note_pos lvl g p m)"
proof -
  from read checked
  have range: "lvl \<le> 4 \<or> list_all (\<lambda>tx. list_all (input_in_range db) (vin tx)) (vtx block)"
    by (simp add: block_checked_def)
  show ?thesis
    using read
    by (simp add: verify_block_def block_fails_def note_pos_def Let_def check_vtx_eq [OF range])
qed

text \<open>The walk over a path of blocks that are read and checked to the end.\<close>

lemma verify_walk_path:
  assumes "walk_path e depth g pindex ps"
    and "list_all (block_checked e db lvl g) ps"
    and "length ps < fuel"
  shows "verify_walk fuel e db lvl depth g pindex (fork, m) =
           Some (Inr (if failing_blocks e db lvl g ps m = [] then fork
                      else pprev (heap g ! last (failing_blocks e db lvl g ps m)),
                      positions_seen lvl g ps m))"
  using assms
proof (induction ps arbitrary: fuel pindex fork m)
  case Nil
  then obtain k where "fuel = Suc k" by (cases fuel) auto
  with Nil show ?case
    by (auto split: option.splits)
next
  case (Cons p ps)
  then obtain k where fuel: "fuel = Suc k" and k: "length ps < k" by (cases fuel) auto
  from Cons.prems(1) obtain q where
    pindex: "pindex = Some p" and prev: "pprev (heap g ! p) = Some q"
    and live: "\<not> fRequestShutdown e" "\<not> nHeight (heap g ! p) < int32 (nBestHeight g - depth)"
    and rest: "walk_path e depth g (Some q) ps"
    by auto
  from Cons.prems(2) have checked: "block_checked e db lvl g p"
    and rest_checked: "list_all (block_checked e db lvl g) ps"
    by simp_all
  from checked obtain block where read: "block_ReadFromDisk e (heap g ! p) = Some block"
    by (auto simp: block_checked_def split: option.splits)
  let ?fork' = "if block_fails e db lvl g m p then Some q else fork"
  have step: "verify_block e db lvl g p block (fork, m) = Inr (?fork', note_pos lvl g p m)"
    using verify_block_step [OF read checked, of fork m] prev by simp
  have ih: "verify_walk k e db lvl depth g (Some q) (?fork', note_pos lvl g p m) =
      Some (Inr (if failing_blocks e db lvl g ps (note_pos lvl g p m) = [] then ?fork'
                 else pprev (heap g ! last (failing_blocks e db lvl g ps (note_pos lvl g p m))),
                 positions_seen lvl g ps (note_pos lvl g p m)))"
    by (rule Cons.IH [OF rest rest_checked k])
  have "verify_walk fuel e db lvl depth g pindex (fork, m) =
        verify_walk k e db lvl depth g (Some q) (?fork', note_pos lvl g p m)"
    using fuel pindex prev live read step by simp
  then show ?case
    using ih prev by simp
qed

text \<open>A block that cannot be read ends the walk with the error of the load.\<close>

lemma verify_walk_unreadable:
  assumes "pprev (heap g ! p) \<noteq> None"
    and "\<not> fRequestShutdown e"
    and "\<not> nHeight (heap g ! p) < int32 (nBestHeight g - depth)"
    and "block_ReadFromDisk e (heap g ! p) = None"
  shows "verify_walk (Suc k) e db lvl depth g (Some p) st =
           Some (Inl (LoadError ''LoadBlockIndex() : block.ReadFromDisk failed''))"
  using assms by (auto split: option.splits)

subsection \<open>The last failure decides\<close>

lemma failing_blocks_subset:
  "set (failing_blocks e db lvl g ps m) \<subseteq> set ps"
  by (induction ps arbitrary: m) auto

lemma failing_blocks_sorted_wrt:
  "sorted_wrt R ps \<Longrightarrow> sorted_wrt R (failing_blocks e db lvl g ps m)"
proof (induction ps arbitrary: m)
  case Nil
  then show ?case by simp
next
  case (Cons p ps)
  have "\<forall>q \<in> set (failing_blocks e db lvl g ps (note_pos lvl g p m)). R p q"
    using Cons.prems failing_blocks_subset by fastforce
  with Cons show ?case by simp
qed

lemma sorted_wrt_last:
  "sorted_wrt R xs \<Longrightarrow> x \<in> set xs \<Longrightarrow> x = last xs \<or> R x (last xs)"
  by (induction xs) auto

text \<open>
  Claim C4, as the code has it. Let the loop, started at \<open>pindex\<close>, visit the blocks
  \<open>ps\<close>, each of them read from disk and checked to the end. Then, however many of them
  fail a check, the walk visits them all and ends, with the repair point at the
  predecessor of the last block of \<open>ps\<close> that fails, the one farthest back along the
  \<^verbatim>\<open>pprev\<close> links (the repair point it started with if none fails). The checks of a
  block that fails leave the repair point at the predecessor of that block, whatever
  it was before, and the checks of a block that does not fail leave it as it was.
  Where the heights decrease along the walk, the last failing block is the failing
  block of least height. A block of the walk that cannot be read from disk ends the
  walk with the error of the load, and with it the repair point found so far.
\<close>

theorem verify_walk_last_failure_decides:
  assumes "walk_path e depth g pindex ps"
    and "list_all (block_checked e db lvl g) ps"
    and "length ps < fuel"
  shows "verify_walk fuel e db lvl depth g pindex (fork, m) =
           Some (Inr (if failing_blocks e db lvl g ps m = [] then fork
                      else pprev (heap g ! last (failing_blocks e db lvl g ps m)),
                      positions_seen lvl g ps m)) \<and>
         (\<forall>p block m' fork'.
            block_ReadFromDisk e (heap g ! p) = Some block \<and> block_checked e db lvl g p \<longrightarrow>
              verify_block e db lvl g p block (fork', m') =
                Inr (if block_fails e db lvl g m' p then pprev (heap g ! p) else fork',
                     note_pos lvl g p m')) \<and>
         (heights_decrease g ps \<longrightarrow>
            (\<forall>p \<in> set (failing_blocks e db lvl g ps m).
               nHeight (heap g ! last (failing_blocks e db lvl g ps m)) \<le> nHeight (heap g ! p))) \<and>
         (\<forall>k p st.
            pprev (heap g ! p) \<noteq> None \<and> \<not> fRequestShutdown e \<and>
            \<not> nHeight (heap g ! p) < int32 (nBestHeight g - depth) \<and>
            block_ReadFromDisk e (heap g ! p) = None \<longrightarrow>
              verify_walk (Suc k) e db lvl depth g (Some p) st =
                Some (Inl (LoadError ''LoadBlockIndex() : block.ReadFromDisk failed'')))"
proof (intro conjI allI impI ballI)
  show "verify_walk fuel e db lvl depth g pindex (fork, m) =
           Some (Inr (if failing_blocks e db lvl g ps m = [] then fork
                      else pprev (heap g ! last (failing_blocks e db lvl g ps m)),
                      positions_seen lvl g ps m))"
    using assms by (rule verify_walk_path)
next
  fix p block m' fork'
  assume "block_ReadFromDisk e (heap g ! p) = Some block \<and> block_checked e db lvl g p"
  then show "verify_block e db lvl g p block (fork', m') =
      Inr (if block_fails e db lvl g m' p then pprev (heap g ! p) else fork',
           note_pos lvl g p m')"
    by (simp add: verify_block_step)
next
  fix p
  assume dec: "heights_decrease g ps"
    and p: "p \<in> set (failing_blocks e db lvl g ps m)"
  let ?R = "\<lambda>p q. nHeight (heap g ! q) < nHeight (heap g ! p)"
  have "sorted_wrt ?R (failing_blocks e db lvl g ps m)"
    using dec unfolding heights_decrease_def by (rule failing_blocks_sorted_wrt)
  from sorted_wrt_last [OF this p]
  show "nHeight (heap g ! last (failing_blocks e db lvl g ps m)) \<le> nHeight (heap g ! p)"
    by auto
next
  fix k p st
  assume "pprev (heap g ! p) \<noteq> None \<and> \<not> fRequestShutdown e \<and>
          \<not> nHeight (heap g ! p) < int32 (nBestHeight g - depth) \<and>
          block_ReadFromDisk e (heap g ! p) = None"
  then show "verify_walk (Suc k) e db lvl depth g (Some p) st =
      Some (Inl (LoadError ''LoadBlockIndex() : block.ReadFromDisk failed''))"
    by (intro verify_walk_unreadable) simp_all
qed

lemma int32_small [simp]:
  "int32 0 = 0" "int32 1 = 1" "int32 2 = 2" "int32 3 = 3" "int32 2500 = 2500"
  by (simp_all add: int32_id)

lemma sample_chain_nodes:
  "heap sample_chain ! 0 = sample_node None 0"
  "heap sample_chain ! 1 = sample_node (Some 0) 1"
  "heap sample_chain ! Suc 0 = sample_node (Some 0) 1"
  "heap sample_chain ! 2 = sample_node (Some 1) 2"
  "heap sample_chain ! 3 = sample_node (Some 2) 3"
  "nBestHeight sample_chain = 3"
  "pindexBest sample_chain = Some 3"
  by (simp_all add: sample_chain_def empty_globals_def)

lemma sample_node_fields:
  "pprev (sample_node prev height) = prev"
  "nHeight (sample_node prev height) = height"
  "nFile (sample_node prev height) = 1"
  "nBlockPos (sample_node prev height) = word_of_int height"
  by (simp_all add: sample_node_def)

lemma two_bad_blocks_fields:
  "\<not> fRequestShutdown sample_env_two_bad_blocks"
  "block_ReadFromDisk sample_env_two_bad_blocks node =
     Some \<lparr>vtx = [], block_content = nat (nHeight node)\<rparr>"
  "CheckBlock sample_env_two_bad_blocks block sig \<longleftrightarrow> block_content block = 2"
  "arg_checklevel sample_env_two_bad_blocks = 1"
  "arg_checkblocks sample_env_two_bad_blocks = 2500"
  by (simp_all add: sample_env_two_bad_blocks_def sample_env_def)

theorem verify_walk_last_failure_decides_witness:
  "walk_path sample_env_two_bad_blocks 3 sample_chain (Some 3) [3, 2, 1] \<and>
   list_all (block_checked sample_env_two_bad_blocks sample_db_empty 1 sample_chain) [3, 2, 1] \<and>
   \<not> CheckBlock sample_env_two_bad_blocks \<lparr>vtx = [], block_content = 3\<rparr> False \<and>
   CheckBlock sample_env_two_bad_blocks \<lparr>vtx = [], block_content = 2\<rparr> False \<and>
   \<not> CheckBlock sample_env_two_bad_blocks \<lparr>vtx = [], block_content = 1\<rparr> False \<and>
   failing_blocks sample_env_two_bad_blocks sample_db_empty 1 sample_chain [3, 2, 1] Map.empty
     = [3, 1] \<and>
   heights_decrease sample_chain [3, 2, 1] \<and>
   pprev (heap sample_chain ! 1) = Some 0 \<and>
   verify_walk 4 sample_env_two_bad_blocks sample_db_empty 1 3 sample_chain (Some 3)
     (None, Map.empty) = Some (Inr (Some 0, Map.empty))"
proof -
  have path: "walk_path sample_env_two_bad_blocks 3 sample_chain (Some 3) [3, 2, 1]"
    by (simp add: sample_chain_nodes sample_node_fields two_bad_blocks_fields)
  have checked:
    "list_all (block_checked sample_env_two_bad_blocks sample_db_empty 1 sample_chain) [3, 2, 1]"
    by (simp add: block_checked_def two_bad_blocks_fields)
  have bad3: "\<not> CheckBlock sample_env_two_bad_blocks \<lparr>vtx = [], block_content = 3\<rparr> False"
    and good2: "CheckBlock sample_env_two_bad_blocks \<lparr>vtx = [], block_content = 2\<rparr> False"
    and bad1: "\<not> CheckBlock sample_env_two_bad_blocks \<lparr>vtx = [], block_content = 1\<rparr> False"
    by (simp_all add: two_bad_blocks_fields)
  have failing:
    "failing_blocks sample_env_two_bad_blocks sample_db_empty 1 sample_chain [3, 2, 1] Map.empty
       = [3, 1]"
    by (simp add: block_fails_def note_pos_def two_bad_blocks_fields
          sample_chain_nodes sample_node_fields)
  have dec: "heights_decrease sample_chain [3, 2, 1]"
    by (simp add: heights_decrease_def sample_chain_nodes sample_node_fields)
  have prev: "pprev (heap sample_chain ! 1) = Some 0"
    by (simp add: sample_chain_nodes sample_node_fields)
  have fuel: "length [3 :: nat, 2, 1] < 4" by simp
  have seen: "positions_seen 1 sample_chain [3, 2, 1] Map.empty = Map.empty"
    by (simp add: note_pos_def)
  have "verify_walk 4 sample_env_two_bad_blocks sample_db_empty 1 3 sample_chain (Some 3)
          (None, Map.empty) =
        Some (Inr (pprev (heap sample_chain ! last [3, 1]),
                   positions_seen 1 sample_chain [3, 2, 1] Map.empty))"
    using verify_walk_last_failure_decides [OF path checked fuel, of None Map.empty, THEN conjunct1]
    unfolding failing by simp
  then have result:
    "verify_walk 4 sample_env_two_bad_blocks sample_db_empty 1 3 sample_chain (Some 3)
       (None, Map.empty) = Some (Inr (Some 0, Map.empty))"
    unfolding seen using prev by simp
  show ?thesis
    by (intro conjI path checked bad3 good2 bad1 failing dec prev result)
qed

text \<open>
  Two walks at check level 1. In the chain of three blocks above the genesis block,
  the blocks of height 3 and 2 are read and fail \<^verbatim>\<open>CheckBlock\<close>, and the block of
  height 1 is visited and cannot be read: the walk does not run to its end, and the
  verification ends with the error of the load, so that no repair point is left and
  no rewind is made. In the chain whose heights do not decrease, the tip, of height 2,
  and its predecessor, of height 5, are read and fail \<^verbatim>\<open>CheckBlock\<close>: the repair point
  is the predecessor of the block of height 5, the last failing block visited, and not
  the predecessor of the failing block of lowest height, which is the tip.
\<close>

lemma unreadable_block_fields:
  "\<not> fRequestShutdown sample_env_unreadable_block"
  "block_ReadFromDisk sample_env_unreadable_block node =
     (if nHeight node = 1 then None
      else Some \<lparr>vtx = [], block_content = nat (nHeight node)\<rparr>)"
  "\<not> CheckBlock sample_env_unreadable_block block sig"
  "arg_checklevel sample_env_unreadable_block = 1"
  "arg_checkblocks sample_env_unreadable_block = 2500"
  by (simp_all add: sample_env_unreadable_block_def sample_env_def)

lemma all_bad_fields:
  "\<not> fRequestShutdown sample_env_all_bad"
  "block_ReadFromDisk sample_env_all_bad node =
     Some \<lparr>vtx = [], block_content = unat (nBlockPos node)\<rparr>"
  "\<not> CheckBlock sample_env_all_bad block sig"
  "arg_checklevel sample_env_all_bad = 1"
  "arg_checkblocks sample_env_all_bad = 2500"
  by (simp_all add: sample_env_all_bad_def sample_env_def)

lemma sample_chain_disordered_nodes:
  "heap sample_chain_disordered ! 0 = sample_node None 0"
  "heap sample_chain_disordered ! 1 = sample_node (Some 0) 5"
  "heap sample_chain_disordered ! Suc 0 = sample_node (Some 0) 5"
  "heap sample_chain_disordered ! 2 = sample_node (Some 1) 2"
  "nBestHeight sample_chain_disordered = 2"
  "pindexBest sample_chain_disordered = Some 2"
  by (simp_all add: sample_chain_disordered_def empty_globals_def)

theorem verify_walk_last_failure_counterexample:
  "arg_checklevel sample_env_unreadable_block = 1 \<and>
   pindexBest sample_chain = Some 3 \<and>
   block_fails sample_env_unreadable_block sample_db_empty 1 sample_chain Map.empty 3 \<and>
   pprev (heap sample_chain ! 3) = Some 2 \<and>
   block_fails sample_env_unreadable_block sample_db_empty 1 sample_chain Map.empty 2 \<and>
   pprev (heap sample_chain ! 2) = Some 1 \<and>
   block_ReadFromDisk sample_env_unreadable_block (heap sample_chain ! 1) = None \<and>
   pprev (heap sample_chain ! 1) = Some 0 \<and>
   check_depth sample_env_unreadable_block sample_chain = 3 \<and>
   verify_best_chain 4 sample_env_unreadable_block sample_db_empty sample_chain =
     Some (Inl (LoadError ''LoadBlockIndex() : block.ReadFromDisk failed'')) \<and>
   arg_checklevel sample_env_all_bad = 1 \<and>
   pindexBest sample_chain_disordered = Some 2 \<and>
   block_fails sample_env_all_bad sample_db_empty 1 sample_chain_disordered Map.empty 2 \<and>
   nHeight (heap sample_chain_disordered ! 2) = 2 \<and>
   pprev (heap sample_chain_disordered ! 2) = Some 1 \<and>
   block_fails sample_env_all_bad sample_db_empty 1 sample_chain_disordered Map.empty 1 \<and>
   nHeight (heap sample_chain_disordered ! 1) = 5 \<and>
   pprev (heap sample_chain_disordered ! 1) = Some 0 \<and>
   pprev (heap sample_chain_disordered ! 0) = None \<and>
   check_depth sample_env_all_bad sample_chain_disordered = 2 \<and>
   verify_best_chain 3 sample_env_all_bad sample_db_empty sample_chain_disordered =
     Some (Inr (Some 0))"
proof -
  have fails3:
    "block_fails sample_env_unreadable_block sample_db_empty 1 sample_chain Map.empty 3"
    and fails2:
    "block_fails sample_env_unreadable_block sample_db_empty 1 sample_chain Map.empty 2"
    by (simp_all add: block_fails_def unreadable_block_fields sample_chain_nodes
          sample_node_fields)
  have prevs: "pprev (heap sample_chain ! 3) = Some 2" "pprev (heap sample_chain ! 2) = Some 1"
    "pprev (heap sample_chain ! 1) = Some 0"
    by (simp_all add: sample_chain_nodes sample_node_fields)
  have unread: "block_ReadFromDisk sample_env_unreadable_block (heap sample_chain ! 1) = None"
    by (simp add: unreadable_block_fields sample_chain_nodes sample_node_fields)
  have depth: "check_depth sample_env_unreadable_block sample_chain = 3"
    by (simp add: check_depth_def unreadable_block_fields sample_chain_nodes)
  have four: "(4 :: nat) = Suc (Suc (Suc (Suc 0)))" by simp
  have walk: "verify_walk 4 sample_env_unreadable_block sample_db_empty 1 3 sample_chain
      (Some 3) (None, Map.empty) =
      Some (Inl (LoadError ''LoadBlockIndex() : block.ReadFromDisk failed''))"
    unfolding four
    by (simp add: verify_block_def unreadable_block_fields sample_chain_nodes
          sample_node_fields)
  have best: "verify_best_chain 4 sample_env_unreadable_block sample_db_empty sample_chain =
     Some (Inl (LoadError ''LoadBlockIndex() : block.ReadFromDisk failed''))"
    by (simp add: verify_best_chain_def depth unreadable_block_fields sample_chain_nodes walk)
  have dfails2:
    "block_fails sample_env_all_bad sample_db_empty 1 sample_chain_disordered Map.empty 2"
    and dfails1:
    "block_fails sample_env_all_bad sample_db_empty 1 sample_chain_disordered Map.empty 1"
    by (simp_all add: block_fails_def all_bad_fields)
  have dnodes: "nHeight (heap sample_chain_disordered ! 2) = 2"
    "pprev (heap sample_chain_disordered ! 2) = Some 1"
    "nHeight (heap sample_chain_disordered ! 1) = 5"
    "pprev (heap sample_chain_disordered ! 1) = Some 0"
    "pprev (heap sample_chain_disordered ! 0) = None"
    by (simp_all add: sample_chain_disordered_nodes sample_node_fields)
  have ddepth: "check_depth sample_env_all_bad sample_chain_disordered = 2"
    by (simp add: check_depth_def all_bad_fields sample_chain_disordered_nodes)
  have three: "(3 :: nat) = Suc (Suc (Suc 0))" by simp
  have dwalk: "verify_walk 3 sample_env_all_bad sample_db_empty 1 2 sample_chain_disordered
      (Some 2) (None, Map.empty) = Some (Inr (Some 0, Map.empty))"
    unfolding three
    by (simp add: verify_block_def all_bad_fields sample_chain_disordered_nodes
          sample_node_fields)
  have dbest: "verify_best_chain 3 sample_env_all_bad sample_db_empty sample_chain_disordered =
     Some (Inr (Some 0))"
    by (simp add: verify_best_chain_def ddepth all_bad_fields sample_chain_disordered_nodes
          dwalk)
  show ?thesis
    by (intro conjI unreadable_block_fields(4) sample_chain_nodes(7) fails3 fails2 prevs
          unread depth best all_bad_fields(4) sample_chain_disordered_nodes(6) dfails2
          dfails1 dnodes ddepth dbest)
qed

subsection \<open>Transactions without an index record\<close>

lemma check_tx_no_index:
  "ReadTxIndex db (tx_GetHash e tx) = None \<Longrightarrow>
   check_tx e db lvl pindex m tx fork =
     (if lvl > 4 then check_prevouts e db (pprev pindex) (vin tx) fork else Inr fork)"
  by (simp add: check_tx_def)

lemma tx_fails_no_index:
  "ReadTxIndex db (tx_GetHash e tx) = None \<Longrightarrow>
   tx_fails e db lvl pindex m tx \<longleftrightarrow> lvl > 4 \<and> list_ex (input_fails e db) (vin tx)"
  by (simp add: tx_fails_def)

text \<open>
  Claim C5, as the code has it. A transaction that has no index record is passed over:
  the checks of levels 2 to 4 and 6 are made only when its record is read, and only the
  level 5 check of its inputs still runs, so that the missing record is no failure of
  the block. At check level 2 and above, a walk over blocks that are read from disk and
  checked to the end, none of which fails a check, ends with no repair point, whatever
  transactions of these blocks have no index record, and the rewind makes no call of
  the set-best-chain operation.
\<close>

theorem missing_tx_index_sets_no_repair_point:
  assumes "walk_path e depth g pindex ps"
    and "list_all (block_checked e db lvl g) ps"
    and "length ps < fuel"
    and "1 < lvl"
    and "failing_blocks e db lvl g ps m = []"
  shows "(\<forall>tx lvl' node m' fork.
            ReadTxIndex db (tx_GetHash e tx) = None \<longrightarrow>
            check_tx e db lvl' node m' tx fork =
              (if lvl' > 4 then check_prevouts e db (pprev node) (vin tx) fork else Inr fork) \<and>
            (tx_fails e db lvl' node m' tx \<longleftrightarrow>
               lvl' > 4 \<and> list_ex (input_fails e db) (vin tx))) \<and>
         verify_walk fuel e db lvl depth g pindex (None, m) =
           Some (Inr (None, positions_seen lvl g ps m)) \<and>
         rewind e g None = Inr None"
proof (intro conjI allI impI)
  fix tx lvl' node m' fork
  assume "ReadTxIndex db (tx_GetHash e tx) = None"
  then show "check_tx e db lvl' node m' tx fork =
      (if lvl' > 4 then check_prevouts e db (pprev node) (vin tx) fork else Inr fork)"
    and "tx_fails e db lvl' node m' tx \<longleftrightarrow> lvl' > 4 \<and> list_ex (input_fails e db) (vin tx)"
    by (simp_all add: check_tx_no_index tx_fails_no_index)
next
  show "verify_walk fuel e db lvl depth g pindex (None, m) =
      Some (Inr (None, positions_seen lvl g ps m))"
    using verify_walk_path [OF assms(1-3), of None m] assms(5) by simp
next
  show "rewind e g None = Inr None" by (simp add: rewind_def)
qed

lemma level2_fields:
  "\<not> fRequestShutdown sample_env_level2"
  "block_ReadFromDisk sample_env_level2 node =
     Some \<lparr>vtx = (if nHeight node = 2 then [sample_tx] else []),
           block_content = nat (nHeight node)\<rparr>"
  "CheckBlock sample_env_level2 block sig"
  "arg_checklevel sample_env_level2 = 2"
  "arg_checkblocks sample_env_level2 = 2500"
  "tx_GetHash sample_env_level2 sample_tx = 7"
  "tx_ReadFromDisk sample_env_level2 txpos = None"
  by (simp_all add: sample_env_level2_def sample_env_def sample_tx_def)

lemma sample_db_empty_no_index: "ReadTxIndex sample_db_empty h = None"
  by (simp add: sample_db_empty_def ReadTxIndex_def Read_def ScanBatch_def db_Get_def)

lemma level2_path: "walk_path sample_env_level2 3 sample_chain (Some 3) [3, 2, 1]"
  by (simp add: sample_chain_nodes sample_node_fields level2_fields)

text \<open>
  The depth \<^verbatim>\<open>-checkblocks=-2147483648\<close>: the difference \<^verbatim>\<open>nBestHeight-nCheckDepth\<close> wraps
  around to a negative number, and the walk visits every block of the chain.
\<close>

lemma walk_path_negative_depth:
  "check_depth (sample_env_level2\<lparr>arg_checkblocks := - 2147483648\<rparr>) sample_chain
     = - 2147483648 \<and>
   int32 (nBestHeight sample_chain - (- 2147483648)) = - 2147483645 \<and>
   walk_path sample_env_level2 (- 2147483648) sample_chain (Some 3) [3, 2, 1]"
  by (simp add: check_depth_def int32_def sample_chain_nodes sample_node_fields level2_fields)

lemma level2_checked:
  "list_all (block_checked sample_env_level2 sample_db_empty 2 sample_chain) [3, 2, 1]"
  by (simp add: block_checked_def level2_fields)

lemma level2_no_failure:
  "failing_blocks sample_env_level2 sample_db_empty 2 sample_chain [3, 2, 1] Map.empty = []"
  by (simp add: block_fails_def tx_fails_def level2_fields sample_db_empty_no_index
        sample_tx_def)

lemma level2_depth: "check_depth sample_env_level2 sample_chain = 3"
  by (simp add: check_depth_def level2_fields sample_chain_nodes)

lemma mixed_block_fields:
  "\<not> fRequestShutdown sample_env_mixed_block"
  "block_ReadFromDisk sample_env_mixed_block node =
     Some \<lparr>vtx = (if nHeight node = 2 then [sample_tx, sample_tx_located] else []),
           block_content = nat (nHeight node)\<rparr>"
  "CheckBlock sample_env_mixed_block block sig"
  "arg_checklevel sample_env_mixed_block = 2"
  "arg_checkblocks sample_env_mixed_block = 2500"
  "tx_GetHash sample_env_mixed_block sample_tx = 7"
  "tx_GetHash sample_env_mixed_block sample_tx_located = 8"
  "tx_ReadFromDisk sample_env_mixed_block txpos = None"
  by (simp_all add: sample_env_mixed_block_def sample_env_def sample_tx_def
        sample_tx_located_def)

lemma sample_db_located_index:
  "ReadTxIndex sample_db_located 7 = None"
  "ReadTxIndex sample_db_located 8 = Some \<lparr>txindex_pos = CDiskTxPos 1 2 0, vSpent = []\<rparr>"
  by (simp_all add: sample_db_located_def ReadTxIndex_def Read_def ScanBatch_def db_Get_def)

theorem missing_tx_index_sets_no_repair_point_witness:
  "walk_path sample_env_mixed_block 3 sample_chain (Some 3) [3, 2, 1] \<and>
   list_all (block_checked sample_env_mixed_block sample_db_located 2 sample_chain) [3, 2, 1] \<and>
   failing_blocks sample_env_mixed_block sample_db_located 2 sample_chain [3, 2, 1] Map.empty
     = [] \<and>
   block_ReadFromDisk sample_env_mixed_block (heap sample_chain ! 2) =
     Some \<lparr>vtx = [sample_tx, sample_tx_located], block_content = 2\<rparr> \<and>
   ReadTxIndex sample_db_located (tx_GetHash sample_env_mixed_block sample_tx) = None \<and>
   ReadTxIndex sample_db_located (tx_GetHash sample_env_mixed_block sample_tx_located) =
     Some \<lparr>txindex_pos = CDiskTxPos 1 2 0, vSpent = []\<rparr> \<and>
   check_tx sample_env_mixed_block sample_db_located 2 (heap sample_chain ! 2) Map.empty
     sample_tx None = Inr None \<and>
   verify_walk 4 sample_env_mixed_block sample_db_located 2 3 sample_chain (Some 3)
     (None, Map.empty) = Some (Inr (None, positions_seen 2 sample_chain [3, 2, 1] Map.empty)) \<and>
   rewind sample_env_mixed_block sample_chain None = Inr None"
proof -
  have path: "walk_path sample_env_mixed_block 3 sample_chain (Some 3) [3, 2, 1]"
    by (simp add: sample_chain_nodes sample_node_fields mixed_block_fields)
  have checked:
    "list_all (block_checked sample_env_mixed_block sample_db_located 2 sample_chain) [3, 2, 1]"
    by (simp add: block_checked_def mixed_block_fields)
  have none: "failing_blocks sample_env_mixed_block sample_db_located 2 sample_chain [3, 2, 1]
      Map.empty = []"
    by (simp add: block_fails_def tx_fails_def reread_fails_def mixed_block_fields
          sample_db_located_index sample_chain_nodes sample_node_fields)
  have block: "block_ReadFromDisk sample_env_mixed_block (heap sample_chain ! 2) =
      Some \<lparr>vtx = [sample_tx, sample_tx_located], block_content = 2\<rparr>"
    by (simp add: mixed_block_fields sample_chain_nodes sample_node_fields)
  have missing: "ReadTxIndex sample_db_located (tx_GetHash sample_env_mixed_block sample_tx)
      = None"
    and located: "ReadTxIndex sample_db_located
        (tx_GetHash sample_env_mixed_block sample_tx_located) =
      Some \<lparr>txindex_pos = CDiskTxPos 1 2 0, vSpent = []\<rparr>"
    by (simp_all add: mixed_block_fields sample_db_located_index)
  have fuel: "length [3 :: nat, 2, 1] < 4" by simp
  have lvl: "(1 :: int) < 2" by simp
  note rule = missing_tx_index_sets_no_repair_point [OF path checked fuel lvl none]
  have tx: "check_tx sample_env_mixed_block sample_db_located 2 (heap sample_chain ! 2)
      Map.empty sample_tx None = Inr None"
    using rule [THEN conjunct1, THEN spec [of _ sample_tx], THEN spec [of _ 2],
                THEN spec [of _ "heap sample_chain ! 2"], THEN spec [of _ Map.empty],
                THEN spec [of _ None]] missing
    by simp
  show ?thesis
    by (intro conjI path checked none block missing located tx
          rule [THEN conjunct2, THEN conjunct1] rule [THEN conjunct2, THEN conjunct2])
qed

text \<open>
  Check level 2, the chain of three blocks: the block of height 2 is visited and its
  transaction has no index record; the walk ends with no repair point, not with the
  block of height 1, and no call of the set-best-chain operation is made.
\<close>

theorem missing_tx_index_counterexample:
  "arg_checklevel sample_env_level2 = 2 \<and>
   walk_path sample_env_level2 (check_depth sample_env_level2 sample_chain) sample_chain
     (pindexBest sample_chain) [3, 2, 1] \<and>
   block_ReadFromDisk sample_env_level2 (heap sample_chain ! 2) =
     Some \<lparr>vtx = [sample_tx], block_content = 2\<rparr> \<and>
   ReadTxIndex sample_db_empty (tx_GetHash sample_env_level2 sample_tx) = None \<and>
   pprev (heap sample_chain ! 2) = Some 1 \<and>
   verify_best_chain 4 sample_env_level2 sample_db_empty sample_chain = Some (Inr None) \<and>
   rewind sample_env_level2 sample_chain None = Inr None"
proof -
  have fuel: "length [3 :: nat, 2, 1] < 4" by simp
  have walk: "verify_walk 4 sample_env_level2 sample_db_empty 2 3 sample_chain (Some 3)
                (None, Map.empty) =
              Some (Inr (None, positions_seen 2 sample_chain [3, 2, 1] Map.empty))"
    using verify_walk_path [OF level2_path level2_checked fuel, of None Map.empty]
      level2_no_failure
    by simp
  have best: "verify_best_chain 4 sample_env_level2 sample_db_empty sample_chain = Some (Inr None)"
    by (simp add: verify_best_chain_def level2_depth level2_fields sample_chain_nodes walk)
  have path: "walk_path sample_env_level2 (check_depth sample_env_level2 sample_chain)
                sample_chain (pindexBest sample_chain) [3, 2, 1]"
    using level2_path by (simp add: level2_depth sample_chain_nodes)
  have block: "block_ReadFromDisk sample_env_level2 (heap sample_chain ! 2) =
                 Some \<lparr>vtx = [sample_tx], block_content = 2\<rparr>"
    by (simp add: level2_fields sample_chain_nodes sample_node_fields)
  have prev: "pprev (heap sample_chain ! 2) = Some 1"
    by (simp add: sample_chain_nodes sample_node_fields)
  have norewind: "rewind sample_env_level2 sample_chain None = Inr None"
    by (simp add: rewind_def)
  show ?thesis
    by (intro conjI level2_fields(4) path block sample_db_empty_no_index prev best norewind)
qed

subsection \<open>Mislocated transactions at check level 2\<close>

lemma check_tx_level2:
  "check_tx e db 2 pindex m tx fork =
     Inr (case ReadTxIndex db (tx_GetHash e tx) of
            None \<Rightarrow> fork
          | Some txindex \<Rightarrow>
              if nFile pindex \<noteq> txpos_nFile (txindex_pos txindex)
                 \<or> nBlockPos pindex \<noteq> txpos_nBlockPos (txindex_pos txindex)
              then (case tx_ReadFromDisk e (txindex_pos txindex) of
                      None \<Rightarrow> pprev pindex
                    | Some txFound \<Rightarrow>
                        if tx_GetHash e txFound \<noteq> tx_GetHash e tx then pprev pindex else fork)
              else fork)"
  by (simp add: check_tx_def Let_def split: option.splits)

lemma check_tx_level2_back:
  "check_tx e db 2 pindex m tx (pprev pindex) = Inr (pprev pindex)"
  by (simp add: check_tx_level2 split: option.splits)

lemma check_vtx_level2_back:
  "check_vtx e db 2 pindex m txs (pprev pindex) = Inr (pprev pindex)"
  by (induction txs) (simp_all add: check_tx_level2_back)

lemma check_tx_mislocated:
  assumes "ReadTxIndex db (tx_GetHash e tx) = Some txindex"
    and "nFile pindex \<noteq> txpos_nFile (txindex_pos txindex)
         \<or> nBlockPos pindex \<noteq> txpos_nBlockPos (txindex_pos txindex)"
    and "tx_ReadFromDisk e (txindex_pos txindex) = None
         \<or> (\<exists>txFound. tx_ReadFromDisk e (txindex_pos txindex) = Some txFound
                      \<and> tx_GetHash e txFound \<noteq> tx_GetHash e tx)"
  shows "check_tx e db 2 pindex m tx fork = Inr (pprev pindex)"
  using assms by (auto simp: check_tx_level2)

lemma check_vtx_mislocated:
  assumes "tx \<in> set txs"
    and "check_tx e db 2 pindex m tx fork0 = Inr (pprev pindex)"
    and "\<And>fork. check_tx e db 2 pindex m tx fork = Inr (pprev pindex)"
  shows "check_vtx e db 2 pindex m txs fork = Inr (pprev pindex)"
  using assms(1)
proof (induction txs arbitrary: fork)
  case Nil
  then show ?case by simp
next
  case (Cons t rest)
  show ?case
  proof (cases "t = tx")
    case True
    then show ?thesis by (simp add: assms(3) check_vtx_level2_back)
  next
    case False
    with Cons.prems have "tx \<in> set rest" by simp
    then have "\<And>f. check_vtx e db 2 pindex m rest f = Inr (pprev pindex)"
      by (rule Cons.IH)
    then show ?thesis by (simp add: check_tx_level2)
  qed
qed

text \<open>
  Claim C10. At check level 2, let a transaction of a visited block have an index
  record whose position is not the position of the block, and let the transaction
  read from the recorded position be unreadable or have another hash. Then the check
  of this transaction sets the repair point to the predecessor of the block, and so
  do the checks of the whole block. A transaction whose record names the position of
  the block is not read again at this level.
\<close>

theorem mislocated_tx_checked_at_level2:
  assumes "tx \<in> set (vtx block)"
    and "ReadTxIndex db (tx_GetHash e tx) = Some txindex"
    and "nFile (heap g ! p) \<noteq> txpos_nFile (txindex_pos txindex)
         \<or> nBlockPos (heap g ! p) \<noteq> txpos_nBlockPos (txindex_pos txindex)"
    and "tx_ReadFromDisk e (txindex_pos txindex) = None
         \<or> (\<exists>txFound. tx_ReadFromDisk e (txindex_pos txindex) = Some txFound
                      \<and> tx_GetHash e txFound \<noteq> tx_GetHash e tx)"
  shows "check_tx e db 2 (heap g ! p) m' tx fork = Inr (pprev (heap g ! p)) \<and>
         verify_block e db 2 g p block (fork, m) =
           Inr (pprev (heap g ! p), note_pos 2 g p m) \<and>
         (\<forall>tx' txindex' fork'.
            ReadTxIndex db (tx_GetHash e tx') = Some txindex' \<and>
            nFile (heap g ! p) = txpos_nFile (txindex_pos txindex') \<and>
            nBlockPos (heap g ! p) = txpos_nBlockPos (txindex_pos txindex') \<longrightarrow>
            check_tx e db 2 (heap g ! p) m' tx' fork' = Inr fork')"
proof (intro conjI allI impI)
  show "check_tx e db 2 (heap g ! p) m' tx fork = Inr (pprev (heap g ! p))"
    using assms(2-4) by (rule check_tx_mislocated)
next
  let ?m1 = "m((nFile (heap g ! p), nBlockPos (heap g ! p)) \<mapsto> p)"
  have each: "\<And>f. check_tx e db 2 (heap g ! p) ?m1 tx f = Inr (pprev (heap g ! p))"
    using assms(2-4) by (rule check_tx_mislocated)
  have "\<And>f. check_vtx e db 2 (heap g ! p) ?m1 (vtx block) f = Inr (pprev (heap g ! p))"
    using assms(1) each each by (rule check_vtx_mislocated)
  then show "verify_block e db 2 g p block (fork, m) =
      Inr (pprev (heap g ! p), note_pos 2 g p m)"
    by (simp add: verify_block_def note_pos_def Let_def)
next
  fix tx' txindex' fork'
  assume "ReadTxIndex db (tx_GetHash e tx') = Some txindex' \<and>
          nFile (heap g ! p) = txpos_nFile (txindex_pos txindex') \<and>
          nBlockPos (heap g ! p) = txpos_nBlockPos (txindex_pos txindex')"
  then show "check_tx e db 2 (heap g ! p) m' tx' fork' = Inr fork'"
    by (simp add: check_tx_level2)
qed

lemma sample_db_mislocated_index:
  "ReadTxIndex sample_db_mislocated 7 =
     Some \<lparr>txindex_pos = CDiskTxPos 1 99 0, vSpent = []\<rparr>"
  by (simp add: sample_db_mislocated_def ReadTxIndex_def Read_def ScanBatch_def db_Get_def)

theorem mislocated_tx_checked_at_level2_witness:
  "sample_tx \<in> set (vtx \<lparr>vtx = [sample_tx], block_content = 2\<rparr>) \<and>
   ReadTxIndex sample_db_mislocated (tx_GetHash sample_env_level2 sample_tx) =
     Some \<lparr>txindex_pos = CDiskTxPos 1 99 0, vSpent = []\<rparr> \<and>
   nBlockPos (heap sample_chain ! 2) = 2 \<and>
   tx_ReadFromDisk sample_env_level2 (CDiskTxPos 1 99 0) = None \<and>
   pprev (heap sample_chain ! 2) = Some 1 \<and>
   verify_block sample_env_level2 sample_db_mislocated 2 sample_chain 2
     \<lparr>vtx = [sample_tx], block_content = 2\<rparr> (None, Map.empty) =
     Inr (Some 1, note_pos 2 sample_chain 2 Map.empty)"
proof -
  let ?txindex = "\<lparr>txindex_pos = CDiskTxPos 1 99 0, vSpent = []\<rparr>"
  have member: "sample_tx \<in> set (vtx \<lparr>vtx = [sample_tx], block_content = 2\<rparr>)"
    by simp
  have index: "ReadTxIndex sample_db_mislocated (tx_GetHash sample_env_level2 sample_tx) =
      Some ?txindex"
    by (simp add: level2_fields sample_db_mislocated_index)
  have pos: "nBlockPos (heap sample_chain ! 2) = 2"
    by (simp add: sample_chain_nodes sample_node_fields)
  have differs: "nFile (heap sample_chain ! 2) \<noteq> txpos_nFile (txindex_pos ?txindex)
      \<or> nBlockPos (heap sample_chain ! 2) \<noteq> txpos_nBlockPos (txindex_pos ?txindex)"
    by (simp add: pos)
  have unreadable: "tx_ReadFromDisk sample_env_level2 (CDiskTxPos 1 99 0) = None"
    by (rule level2_fields)
  have unreadable': "tx_ReadFromDisk sample_env_level2 (txindex_pos ?txindex) = None
      \<or> (\<exists>txFound. tx_ReadFromDisk sample_env_level2 (txindex_pos ?txindex) = Some txFound
                   \<and> tx_GetHash sample_env_level2 txFound
                       \<noteq> tx_GetHash sample_env_level2 sample_tx)"
    by (simp add: level2_fields)
  have prev: "pprev (heap sample_chain ! 2) = Some 1"
    by (simp add: sample_chain_nodes sample_node_fields)
  have block: "verify_block sample_env_level2 sample_db_mislocated 2 sample_chain 2
     \<lparr>vtx = [sample_tx], block_content = 2\<rparr> (None, Map.empty) =
     Inr (Some 1, note_pos 2 sample_chain 2 Map.empty)"
    using mislocated_tx_checked_at_level2 [OF member index differs unreadable',
            of Map.empty None Map.empty, THEN conjunct2, THEN conjunct1]
    unfolding prev .
  show ?thesis
    by (intro conjI member index pos unreadable prev block)
qed

section \<open>Chain trust\<close>

lemma nth_list_update_any:
  "xs[i := v] ! p = (if p = i \<and> i < length xs then v else xs ! p)"
  by (cases "i < length xs") (auto simp: nth_list_update list_update_beyond)

lemma calc_trust_length [simp]: "length (calc_trust e items h) = length h"
  by (induction items arbitrary: h) simp_all

lemma calc_trust_other:
  "p \<notin> snd ` set items \<Longrightarrow> calc_trust e items h ! p = h ! p"
  by (induction items arbitrary: h) (auto simp: nth_list_update)

lemma calc_trust_frame:
  "(calc_trust e items h ! p)\<lparr>nChainTrust := t\<rparr> = (h ! p)\<lparr>nChainTrust := t\<rparr>"
proof (induction items arbitrary: h)
  case Nil
  show ?case by simp
next
  case (Cons item rest)
  let ?h1 = "h[snd item := (h ! snd item)\<lparr>nChainTrust :=
               (case pprev (h ! snd item) of Some q \<Rightarrow> nChainTrust (h ! q) | None \<Rightarrow> 0)
               + GetBlockTrust e (h ! snd item)\<rparr>]"
  have "(?h1 ! p)\<lparr>nChainTrust := t\<rparr> = (h ! p)\<lparr>nChainTrust := t\<rparr>"
    by (simp add: nth_list_update_any)
  with Cons.IH [of ?h1] show ?case by simp
qed

lemma calc_trust_pprev: "pprev (calc_trust e items h ! p) = pprev (h ! p)"
proof -
  have "pprev ((calc_trust e items h ! p)\<lparr>nChainTrust := 0\<rparr>) = pprev ((h ! p)\<lparr>nChainTrust := 0\<rparr>)"
    by (simp only: calc_trust_frame)
  then show ?thesis by simp
qed

lemma calc_trust_nHeight: "nHeight (calc_trust e items h ! p) = nHeight (h ! p)"
proof -
  have "nHeight ((calc_trust e items h ! p)\<lparr>nChainTrust := 0\<rparr>) = nHeight ((h ! p)\<lparr>nChainTrust := 0\<rparr>)"
    by (simp only: calc_trust_frame)
  then show ?thesis by simp
qed

lemma calc_trust_GetBlockTrust:
  assumes "trust_independent e"
  shows "GetBlockTrust e (calc_trust e items h ! p) = GetBlockTrust e (h ! p)"
proof -
  have "GetBlockTrust e ((calc_trust e items h ! p)\<lparr>nChainTrust := 0\<rparr>) =
        GetBlockTrust e ((h ! p)\<lparr>nChainTrust := 0\<rparr>)"
    by (simp only: calc_trust_frame)
  then show ?thesis using assms by (simp add: trust_independent_def)
qed

lemma calc_trust_equation:
  assumes "trust_independent e"
    and "distinct (map snd items)"
    and "\<forall>p \<in> snd ` set items. p < length h"
    and "\<forall>p \<in> snd ` set items. pprev (h ! p) \<noteq> Some p"
    and "sorted_wrt (\<lambda>a b. pprev (h ! a) \<noteq> Some b) (map snd items)"
    and "p \<in> snd ` set items"
  shows "nChainTrust (calc_trust e items h ! p) =
           (case pprev (h ! p) of Some q \<Rightarrow> nChainTrust (calc_trust e items h ! q) | None \<Rightarrow> 0)
           + GetBlockTrust e (h ! p)"
  using assms(2-6)
proof (induction items arbitrary: h)
  case Nil
  then show ?case by simp
next
  case (Cons item rest)
  let ?p0 = "snd item"
  let ?T = "(case pprev (h ! ?p0) of Some q \<Rightarrow> nChainTrust (h ! q) | None \<Rightarrow> 0)
            + GetBlockTrust e (h ! ?p0)"
  let ?h1 = "h[?p0 := (h ! ?p0)\<lparr>nChainTrust := ?T\<rparr>]"
  have unfold: "calc_trust e (item # rest) h = calc_trust e rest ?h1" by simp
  have p0_range: "?p0 < length h" using Cons.prems(2) by simp
  have p0_fresh: "?p0 \<notin> snd ` set rest" using Cons.prems(1) by auto
  have prev1: "\<And>a. pprev (?h1 ! a) = pprev (h ! a)"
    by (simp add: nth_list_update_any)
  have gbt1: "\<And>a. GetBlockTrust e (?h1 ! a) = GetBlockTrust e (h ! a)"
    using assms(1) by (simp add: nth_list_update_any trust_independent_def)
  show ?case
  proof (cases "p = ?p0")
    case True
    have final_p: "calc_trust e rest ?h1 ! p = (h ! ?p0)\<lparr>nChainTrust := ?T\<rparr>"
      using True p0_fresh p0_range by (simp add: calc_trust_other)
    show ?thesis
    proof (cases "pprev (h ! ?p0)")
      case None
      with True final_p show ?thesis by simp
    next
      case (Some q)
      have "q \<noteq> ?p0" using Cons.prems(3) Some by auto
      moreover have "q \<notin> snd ` set rest" using Cons.prems(4) Some by auto
      ultimately have "calc_trust e rest ?h1 ! q = h ! q"
        by (simp add: calc_trust_other)
      with True final_p Some show ?thesis by simp
    qed
  next
    case False
    with Cons.prems(5) have mem: "p \<in> snd ` set rest" by auto
    have "nChainTrust (calc_trust e rest ?h1 ! p) =
           (case pprev (?h1 ! p) of Some q \<Rightarrow> nChainTrust (calc_trust e rest ?h1 ! q) | None \<Rightarrow> 0)
           + GetBlockTrust e (?h1 ! p)"
    proof (rule Cons.IH [OF _ _ _ _ mem])
      show "distinct (map snd rest)" using Cons.prems(1) by simp
      show "\<forall>p \<in> snd ` set rest. p < length ?h1" using Cons.prems(2) by simp
      show "\<forall>p \<in> snd ` set rest. pprev (?h1 ! p) \<noteq> Some p"
        using Cons.prems(3) by (simp add: prev1)
      show "sorted_wrt (\<lambda>a b. pprev (?h1 ! a) \<noteq> Some b) (map snd rest)"
        using Cons.prems(4) by (simp add: prev1)
    qed
    then show ?thesis by (simp add: prev1 gbt1 split: option.splits)
  qed
qed

lemma vSortedByHeight_set:
  "set (vSortedByHeight g) = (\<lambda>item. (nHeight (heap g ! snd item), snd item)) ` set (mapBlockIndex g)"
  by (simp add: vSortedByHeight_def)

lemma vSortedByHeight_nodes:
  "snd ` set (vSortedByHeight g) = snd ` set (mapBlockIndex g)"
  by (force simp: vSortedByHeight_set)

lemma vSortedByHeight_distinct:
  assumes "distinct (map snd (mapBlockIndex g))"
  shows "distinct (map snd (vSortedByHeight g))"
proof -
  let ?f = "\<lambda>item :: uint256 \<times> nat. (nHeight (heap g ! snd item), snd item)"
  from assms have d: "distinct (mapBlockIndex g)" and i: "inj_on snd (set (mapBlockIndex g))"
    by (simp_all add: distinct_map)
  have "inj_on ?f (set (mapBlockIndex g))"
    using i by (auto simp: inj_on_def)
  with d have "distinct (map ?f (mapBlockIndex g))"
    by (simp add: distinct_map)
  then have "distinct (vSortedByHeight g)"
    by (simp add: vSortedByHeight_def)
  moreover have "inj_on snd (set (vSortedByHeight g))"
    by (auto simp: vSortedByHeight_set inj_on_def)
  ultimately show ?thesis by (simp add: distinct_map)
qed

lemma vSortedByHeight_order:
  assumes "heights_increase g"
  shows "sorted_wrt (\<lambda>a b. pprev (heap g ! a) \<noteq> Some b) (map snd (vSortedByHeight g))"
proof -
  have srt: "sorted_wrt (\<le>) (vSortedByHeight g)"
    by (simp add: vSortedByHeight_def)
  have "sorted_wrt (\<lambda>x y. pprev (heap g ! snd x) \<noteq> Some (snd y)) (vSortedByHeight g)"
  proof (rule sorted_wrt_mono_rel [OF _ srt])
    fix x y
    assume x: "x \<in> set (vSortedByHeight g)" and y: "y \<in> set (vSortedByHeight g)"
      and le: "x \<le> y"
    from x obtain ix where ix: "ix \<in> set (mapBlockIndex g)"
      and xeq: "x = (nHeight (heap g ! snd ix), snd ix)"
      by (auto simp: vSortedByHeight_set)
    from y have yeq: "fst y = nHeight (heap g ! snd y)"
      by (auto simp: vSortedByHeight_set)
    from le have "fst x \<le> fst y" by (cases x; cases y) (auto split: if_splits)
    then have hle: "nHeight (heap g ! snd x) \<le> nHeight (heap g ! snd y)"
      using xeq yeq by simp
    show "pprev (heap g ! snd x) \<noteq> Some (snd y)"
    proof
      assume "pprev (heap g ! snd x) = Some (snd y)"
      with assms ix xeq have "nHeight (heap g ! snd y) < nHeight (heap g ! snd x)"
        by (auto simp: heights_increase_def list_all_iff)
      with hle show False by simp
    qed
  qed
  then show ?thesis by (simp add: sorted_wrt_map)
qed

lemma trust_pass_equation:
  assumes wf: "graph_wf g" and inc: "heights_increase g" and ind: "trust_independent e"
    and node: "(h, p) \<in> set (mapBlockIndex g)"
  shows "nChainTrust (heap (trust_pass e g) ! p) =
           (case pprev (heap (trust_pass e g) ! p) of
              None \<Rightarrow> 0
            | Some q \<Rightarrow> nChainTrust (heap (trust_pass e g) ! q))
           + GetBlockTrust e (heap (trust_pass e g) ! p)"
proof -
  let ?items = "vSortedByHeight g"
  have mem: "p \<in> snd ` set ?items"
    using node by (force simp: vSortedByHeight_nodes)
  have dist: "distinct (map snd ?items)"
    using wf by (simp add: graph_wf_def vSortedByHeight_distinct)
  have range: "\<forall>p \<in> snd ` set ?items. p < length (heap g)"
    using wf by (auto simp: graph_wf_def list_all_iff vSortedByHeight_nodes)
  have noself: "\<forall>p \<in> snd ` set ?items. pprev (heap g ! p) \<noteq> Some p"
    using inc by (auto simp: heights_increase_def list_all_iff vSortedByHeight_nodes)
  have "nChainTrust (calc_trust e ?items (heap g) ! p) =
           (case pprev (heap g ! p) of
              Some q \<Rightarrow> nChainTrust (calc_trust e ?items (heap g) ! q) | None \<Rightarrow> 0)
           + GetBlockTrust e (heap g ! p)"
    using ind dist range noself vSortedByHeight_order [OF inc] mem
    by (rule calc_trust_equation)
  then show ?thesis
    by (simp add: trust_pass_def calc_trust_pprev calc_trust_GetBlockTrust [OF ind]
          split: option.splits)
qed

text \<open>
  Claim C3. In a well-formed graph in which every node with a predecessor is higher
  than its predecessor, after the trust pass the chain trust of every node of the
  graph is the chain trust of its predecessor (0 if it has none) plus its own block
  trust; so a node whose block trust is not negative has at least the chain trust of
  its predecessor. The pass changes no other member of a node and no entry of
  \<^verbatim>\<open>mapBlockIndex\<close>.
\<close>

theorem trust_pass_accumulates:
  assumes "graph_wf g" and "heights_increase g" and "trust_independent e"
    and "(h, p) \<in> set (mapBlockIndex g)"
  shows "nChainTrust (heap (trust_pass e g) ! p) =
           (case pprev (heap (trust_pass e g) ! p) of
              None \<Rightarrow> 0
            | Some q \<Rightarrow> nChainTrust (heap (trust_pass e g) ! q))
           + GetBlockTrust e (heap (trust_pass e g) ! p) \<and>
         (\<forall>q. pprev (heap (trust_pass e g) ! p) = Some q \<and>
              0 \<le> GetBlockTrust e (heap (trust_pass e g) ! p) \<longrightarrow>
              nChainTrust (heap (trust_pass e g) ! q)
                \<le> nChainTrust (heap (trust_pass e g) ! p)) \<and>
         mapBlockIndex (trust_pass e g) = mapBlockIndex g \<and>
         pprev (heap (trust_pass e g) ! p) = pprev (heap g ! p) \<and>
         nHeight (heap (trust_pass e g) ! p) = nHeight (heap g ! p)"
proof -
  have eq: "nChainTrust (heap (trust_pass e g) ! p) =
           (case pprev (heap (trust_pass e g) ! p) of
              None \<Rightarrow> 0
            | Some q \<Rightarrow> nChainTrust (heap (trust_pass e g) ! q))
           + GetBlockTrust e (heap (trust_pass e g) ! p)"
    using assms by (rule trust_pass_equation)
  have mono: "\<forall>q. pprev (heap (trust_pass e g) ! p) = Some q \<and>
              0 \<le> GetBlockTrust e (heap (trust_pass e g) ! p) \<longrightarrow>
              nChainTrust (heap (trust_pass e g) ! q)
                \<le> nChainTrust (heap (trust_pass e g) ! p)"
  proof (intro allI impI)
    fix q
    assume "pprev (heap (trust_pass e g) ! p) = Some q \<and>
            0 \<le> GetBlockTrust e (heap (trust_pass e g) ! p)"
    with eq show "nChainTrust (heap (trust_pass e g) ! q)
                    \<le> nChainTrust (heap (trust_pass e g) ! p)"
      by simp
  qed
  have frame: "mapBlockIndex (trust_pass e g) = mapBlockIndex g"
    "pprev (heap (trust_pass e g) ! p) = pprev (heap g ! p)"
    "nHeight (heap (trust_pass e g) ! p) = nHeight (heap g ! p)"
    by (simp_all add: trust_pass_def calc_trust_pprev calc_trust_nHeight)
  show ?thesis
    by (intro conjI eq mono frame)
qed

lemma sample_chain_wf: "graph_wf sample_chain"
  by (simp add: graph_wf_def sample_chain_def empty_globals_def)

lemma sample_chain_heights: "heights_increase sample_chain"
  by (simp add: heights_increase_def sample_chain_def empty_globals_def sample_node_def)

lemma sample_env_trust: "trust_independent sample_env"
  by (simp add: trust_independent_def sample_env_def)

lemma sample_chain_tip: "(4, 3) \<in> set (mapBlockIndex sample_chain)"
  by (simp add: sample_chain_def empty_globals_def)

lemma sample_trust:
  "map nChainTrust (heap (trust_pass sample_env sample_chain)) = [1, 3, 6, 10]"
  by (simp add: trust_pass_def vSortedByHeight_def sample_chain_def empty_globals_def
        sample_node_def sample_env_def new_CBlockIndex_def)

theorem trust_pass_accumulates_witness:
  "graph_wf sample_chain \<and> heights_increase sample_chain \<and> trust_independent sample_env \<and>
   (4, 3) \<in> set (mapBlockIndex sample_chain) \<and>
   pprev (heap sample_chain ! 3) = Some 2 \<and>
   nChainTrust (heap (trust_pass sample_env sample_chain) ! 3) =
     (case pprev (heap (trust_pass sample_env sample_chain) ! 3) of
        None \<Rightarrow> 0
      | Some q \<Rightarrow> nChainTrust (heap (trust_pass sample_env sample_chain) ! q))
     + GetBlockTrust sample_env (heap (trust_pass sample_env sample_chain) ! 3) \<and>
   pprev (heap (trust_pass sample_env sample_chain) ! 3) = Some 2 \<and>
   map nChainTrust (heap (trust_pass sample_env sample_chain)) = [1, 3, 6, 10]"
proof -
  note rule = trust_pass_accumulates
                [OF sample_chain_wf sample_chain_heights sample_env_trust sample_chain_tip]
  have prev: "pprev (heap sample_chain ! 3) = Some 2"
    by (simp add: sample_chain_nodes sample_node_fields)
  have prev': "pprev (heap (trust_pass sample_env sample_chain) ! 3) = Some 2"
    using rule [THEN conjunct2, THEN conjunct2, THEN conjunct2, THEN conjunct1] prev
    by simp
  show ?thesis
    by (intro conjI sample_chain_wf sample_chain_heights sample_env_trust sample_chain_tip
          prev rule [THEN conjunct1] prev' sample_trust)
qed

section \<open>Load pass\<close>

subsection \<open>Building the graph\<close>









lemma node_update_simps [simp]:
  "mapBlockIndex (node_update p f g) = mapBlockIndex g"
  "length (heap (node_update p f g)) = length (heap g)"
  "pindexGenesisBlock (node_update p f g) = pindexGenesisBlock g"
  by (simp_all add: node_update_def)


lemma node_update_wf [simp]: "graph_wf (node_update p f g) = graph_wf g"
  by (simp add: graph_wf_def)


lemma graph_wf_other_globals [simp]:
  "graph_wf (g\<lparr>pindexGenesisBlock := x\<rparr>) = graph_wf g"
  "graph_wf (g\<lparr>setStakeSeen := y\<rparr>) = graph_wf g"
  by (simp_all add: graph_wf_def)



subsection \<open>The store after a sequence of writes\<close>












subsection \<open>Reading the records\<close>


lemma NewIterator_set [simp]: "set (NewIterator d) = set d"
  by (simp add: NewIterator_def)



subsection \<open>Writes followed by a load\<close>








lemma trust_pass_map [simp]: "mapBlockIndex (trust_pass e g) = mapBlockIndex g"
  by (simp add: trust_pass_def)




lemma trust_pass_genesis [simp]:
  "pindexGenesisBlock (trust_pass e g) = pindexGenesisBlock g"
  by (simp add: trust_pass_def)













end
